theory Spec2Isabelle
  imports Complex_Main "HOL-Library.Log_Nat"
begin

section \<open>JavaScript numbers\<close>

text \<open>
  A JavaScript number is an IEEE-754 binary64 value.  The finite values are carried as the
  rational they denote; every arithmetic operation computes the exact rational result and
  rounds it to the nearest binary64 value, ties to even (\<open>fl\<close>).  The two zeros are
  identified: the functions of \<^verbatim>\<open>LogoContext.js\<close> never observe the sign of a zero
  (\<^verbatim>\<open>-0 < 0\<close> is false, \<^verbatim>\<open>-0 === 0\<close> is true, \<^verbatim>\<open>(-0).toFixed(1)\<close> is
  \<^verbatim>\<open>"0.0"\<close>, and the only divisor that can be zero is \<^verbatim>\<open>1 - Math.abs(...)\<close>,
  which is \<open>+0\<close> when it is zero).
\<close>

datatype jsnum = NaN | PInf | NInf | Fin rat

definition rne :: "rat \<Rightarrow> int" where
  \<comment> \<open>round to the nearest integer, ties to the even one\<close>
  "rne x = (let f = \<lfloor>x\<rfloor>; d = x - of_int f in
            if d < 1 / 2 then f
            else if 1 / 2 < d then f + 1
            else if even f then f else f + 1)"

definition ilog2 :: "rat \<Rightarrow> int" where
  \<comment> \<open>\<open>\<lfloor>log\<^sub>2 x\<rfloor>\<close> for \<open>0 < x\<close>\<close>
  "ilog2 x = (let d = bitlen (fst (quotient_of x)) - bitlen (snd (quotient_of x)) in
              if 2 powi d \<le> x then d else d - 1)"

definition ulp_exp :: "rat \<Rightarrow> int" where
  \<comment> \<open>exponent of the unit in the last place: 53 significant bits, least exponent -1022\<close>
  "ulp_exp x = max (ilog2 \<bar>x\<bar>) (- 1022) - 52"

definition flr :: "rat \<Rightarrow> rat" where
  "flr x = (if x = 0 then 0 else of_int (rne (x / 2 powi ulp_exp x)) * 2 powi ulp_exp x)"

definition overflow :: "rat \<Rightarrow> jsnum" where
  \<comment> \<open>a rounded result whose exponent exceeds 1023 becomes an infinity\<close>
  "overflow y = (if y \<noteq> 0 \<and> 1023 < ilog2 \<bar>y\<bar> then (if 0 < y then PInf else NInf) else Fin y)"

definition fl :: "rat \<Rightarrow> jsnum" where
  \<comment> \<open>rounding to binary64\<close>
  "fl x = overflow (flr x)"

fun js_neg :: "jsnum \<Rightarrow> jsnum" where
  "js_neg NaN = NaN"
| "js_neg PInf = NInf"
| "js_neg NInf = PInf"
| "js_neg (Fin a) = Fin (- a)"

fun js_add :: "jsnum \<Rightarrow> jsnum \<Rightarrow> jsnum" where
  "js_add NaN _ = NaN"
| "js_add _ NaN = NaN"
| "js_add PInf NInf = NaN"
| "js_add NInf PInf = NaN"
| "js_add PInf _ = PInf"
| "js_add _ PInf = PInf"
| "js_add NInf _ = NInf"
| "js_add _ NInf = NInf"
| "js_add (Fin a) (Fin b) = fl (a + b)"

definition js_sub :: "jsnum \<Rightarrow> jsnum \<Rightarrow> jsnum" where
  "js_sub a b = js_add a (js_neg b)"

fun js_sgn :: "jsnum \<Rightarrow> int" where
  "js_sgn NaN = 0"
| "js_sgn PInf = 1"
| "js_sgn NInf = - 1"
| "js_sgn (Fin a) = (if 0 < a then 1 else if a < 0 then - 1 else 0)"

definition signed_inf :: "int \<Rightarrow> jsnum" where
  "signed_inf k = (if 0 < k then PInf else if k < 0 then NInf else NaN)"

fun js_mul :: "jsnum \<Rightarrow> jsnum \<Rightarrow> jsnum" where
  "js_mul NaN _ = NaN"
| "js_mul _ NaN = NaN"
| "js_mul (Fin a) (Fin b) = fl (a * b)"
| "js_mul a b = signed_inf (js_sgn a * js_sgn b)"

fun js_div :: "jsnum \<Rightarrow> jsnum \<Rightarrow> jsnum" where
  "js_div NaN _ = NaN"
| "js_div _ NaN = NaN"
| "js_div (Fin a) (Fin b) = (if b = 0 then signed_inf (js_sgn (Fin a)) else fl (a / b))"
| "js_div (Fin a) _ = Fin 0"
| "js_div a (Fin b) = signed_inf (js_sgn a * (if b < 0 then - 1 else 1))"
| "js_div _ _ = NaN"

fun js_mod :: "jsnum \<Rightarrow> jsnum \<Rightarrow> jsnum" where
  \<comment> \<open>the remainder operator \<^verbatim>\<open>%\<close>: exact, truncating, with the sign of the dividend\<close>
  "js_mod (Fin a) (Fin b) =
     (if b = 0 then NaN else Fin (a - b * (sgn (a / b) * of_int \<lfloor>\<bar>a / b\<bar>\<rfloor>)))"
| "js_mod (Fin a) PInf = Fin a"
| "js_mod (Fin a) NInf = Fin a"
| "js_mod _ _ = NaN"

fun js_abs :: "jsnum \<Rightarrow> jsnum" where
  "js_abs NaN = NaN"
| "js_abs PInf = PInf"
| "js_abs NInf = PInf"
| "js_abs (Fin a) = Fin \<bar>a\<bar>"

fun js_lt :: "jsnum \<Rightarrow> jsnum \<Rightarrow> bool" where
  "js_lt NaN _ = False"
| "js_lt _ NaN = False"
| "js_lt _ NInf = False"
| "js_lt NInf _ = True"
| "js_lt PInf _ = False"
| "js_lt _ PInf = True"
| "js_lt (Fin a) (Fin b) = (a < b)"

definition js_le :: "jsnum \<Rightarrow> jsnum \<Rightarrow> bool" where
  "js_le a b = (a \<noteq> NaN \<and> b \<noteq> NaN \<and> \<not> js_lt b a)"

definition js_eq :: "jsnum \<Rightarrow> jsnum \<Rightarrow> bool" where
  \<comment> \<open>strict equality \<^verbatim>\<open>===\<close> on numbers\<close>
  "js_eq a b = (a \<noteq> NaN \<and> a = b)"

definition Math_min2 :: "jsnum \<Rightarrow> jsnum \<Rightarrow> jsnum" where
  "Math_min2 a b = (if a = NaN \<or> b = NaN then NaN else if js_lt b a then b else a)"

definition Math_max2 :: "jsnum \<Rightarrow> jsnum \<Rightarrow> jsnum" where
  "Math_max2 a b = (if a = NaN \<or> b = NaN then NaN else if js_lt a b then b else a)"

definition Math_min3 :: "jsnum \<Rightarrow> jsnum \<Rightarrow> jsnum \<Rightarrow> jsnum" where
  "Math_min3 a b c = Math_min2 (Math_min2 a b) c"

definition Math_max3 :: "jsnum \<Rightarrow> jsnum \<Rightarrow> jsnum \<Rightarrow> jsnum" where
  "Math_max3 a b c = Math_max2 (Math_max2 a b) c"

fun Math_round :: "jsnum \<Rightarrow> jsnum" where
  \<comment> \<open>\<^verbatim>\<open>Math.round\<close>: the integer nearest to the argument, ties towards \<open>+\<infinity>\<close>\<close>
  "Math_round (Fin a) = Fin (of_int \<lfloor>a + 1 / 2\<rfloor>)"
| "Math_round x = x"

fun toFixed1 :: "jsnum \<Rightarrow> jsnum" where
  \<comment> \<open>\<^verbatim>\<open>+(x).toFixed(1)\<close>: \<^verbatim>\<open>toFixed\<close> picks the integer \<open>n\<close> with \<open>n / 10\<close> nearest to
      \<open>\<bar>x\<bar>\<close> (the larger one on a tie) and prints sign and \<open>n / 10\<close> in decimal; unary plus
      reads the decimal back as the nearest binary64.  From \<open>10\<^sup>2\<^sup>1\<close> on, \<^verbatim>\<open>toFixed\<close>
      prints the number itself.\<close>
  "toFixed1 (Fin a) =
     (if \<bar>a\<bar> < 10 ^ 21 then fl (sgn a * of_int \<lfloor>\<bar>a\<bar> * 10 + 1 / 2\<rfloor> / 10) else Fin a)"
| "toFixed1 x = x"


section \<open>JavaScript strings and values\<close>

text \<open>A string is its sequence of UTF-16 code units.\<close>

type_synonym jsstring = "nat list"

abbreviation js :: "string \<Rightarrow> jsstring" where
  "js cs \<equiv> map of_char cs"

datatype jsval = Undefined | Null | BoolV bool | NumV jsnum | ObjV | Str jsstring

datatype error = TypeError

fun falsy :: "jsval \<Rightarrow> bool" where
  \<comment> \<open>the values \<open>v\<close> for which \<^verbatim>\<open>!v\<close> is true\<close>
  "falsy Undefined = True"
| "falsy Null = True"
| "falsy (BoolV b) = (\<not> b)"
| "falsy (NumV x) = (x = NaN \<or> x = Fin 0)"
| "falsy ObjV = False"
| "falsy (Str cs) = (cs = [])"

definition isWhiteSpace :: "nat \<Rightarrow> bool" where
  \<comment> \<open>the code units \<^verbatim>\<open>parseInt\<close> skips at the front: WhiteSpace and LineTerminator\<close>
  "isWhiteSpace c =
     (if c < 256 then c \<in> {9, 10, 11, 12, 13, 32, 160}
      else c \<in> {5760, 8232, 8233, 8239, 8287, 12288, 65279} \<or> (8192 \<le> c \<and> c \<le> 8202))"

definition hexDigit :: "nat \<Rightarrow> nat option" where
  "hexDigit c = (if 48 \<le> c \<and> c \<le> 57 then Some (c - 48)
                 else if 97 \<le> c \<and> c \<le> 102 then Some (c - 87)
                 else if 65 \<le> c \<and> c \<le> 70 then Some (c - 55)
                 else None)"

fun hexPrefix :: "nat option \<Rightarrow> jsstring \<Rightarrow> nat option" where
  \<comment> \<open>value of the longest prefix of hexadecimal digits; \<open>None\<close> when it is empty\<close>
  "hexPrefix acc [] = acc"
| "hexPrefix acc (c # cs) =
     (case hexDigit c of
        None \<Rightarrow> acc
      | Some d \<Rightarrow> hexPrefix (Some (16 * (case acc of None \<Rightarrow> 0 | Some n \<Rightarrow> n) + d)) cs)"

definition parseInt16 :: "jsstring \<Rightarrow> jsnum" where
  \<comment> \<open>\<^verbatim>\<open>parseInt(s, 16)\<close>\<close>
  "parseInt16 cs =
     (let s1 = dropWhile isWhiteSpace cs;
          neg = (s1 \<noteq> [] \<and> hd s1 = 45);
          s2 = (if s1 \<noteq> [] \<and> (hd s1 = 45 \<or> hd s1 = 43) then tl s1 else s1);
          s3 = (case s2 of
                  a # b # rest \<Rightarrow> if a = 48 \<and> (b = 120 \<or> b = 88) then rest else s2
                | _ \<Rightarrow> s2)
      in case hexPrefix None s3 of
           None \<Rightarrow> NaN
         | Some n \<Rightarrow> fl (if neg then - of_nat n else of_nat n))"

definition substring :: "jsstring \<Rightarrow> nat \<Rightarrow> nat \<Rightarrow> jsstring" where
  \<comment> \<open>\<^verbatim>\<open>s.substring(i, j)\<close> for \<open>i \<le> j\<close>\<close>
  "substring cs i j = take (j - i) (drop i cs)"

definition stripHash :: "jsstring \<Rightarrow> jsstring" where
  \<comment> \<open>\<^verbatim>\<open>hex.replace(/^#/, '')\<close>\<close>
  "stripHash cs = (case cs of [] \<Rightarrow> [] | c # rest \<Rightarrow> if c = 35 then rest else cs)"

definition hexChar :: "nat \<Rightarrow> nat" where
  "hexChar d = (if d < 10 then 48 + d else 87 + d)"

fun hexDigits :: "nat \<Rightarrow> nat \<Rightarrow> jsstring" where
  \<comment> \<open>the hexadecimal digits of a positive number; the first argument bounds their count\<close>
  "hexDigits 0 n = []"
| "hexDigits (Suc k) n = (if n = 0 then [] else hexDigits k (n div 16) @ [hexChar (n mod 16)])"

fun toString16 :: "jsnum \<Rightarrow> jsstring" where
  \<comment> \<open>\<^verbatim>\<open>x.toString(16)\<close> for the integral \<open>x\<close> that \<^verbatim>\<open>Math.round\<close> returns\<close>
  "toString16 NaN = js ''NaN''"
| "toString16 PInf = js ''Infinity''"
| "toString16 NInf = js ''-Infinity''"
| "toString16 (Fin a) =
     (let n = nat \<lfloor>\<bar>a\<bar>\<rfloor> in
      (if a < 0 \<and> n \<noteq> 0 then [45] else []) @ (if n = 0 then [48] else hexDigits n n))"

definition padStart2 :: "jsstring \<Rightarrow> jsstring" where
  \<comment> \<open>\<^verbatim>\<open>s.padStart(2, '0')\<close>\<close>
  "padStart2 cs = replicate (2 - length cs) 48 @ cs"


section \<open>LogoContext.js\<close>

record hsl =
  hsl_h :: jsnum
  hsl_s :: jsnum
  hsl_l :: jsnum

definition hexToHSL_str :: "jsstring \<Rightarrow> hsl" where
  "hexToHSL_str hex0 =
     (let hex = stripHash hex0;
          r = js_div (parseInt16 (substring hex 0 2)) (Fin 255);
          g = js_div (parseInt16 (substring hex 2 4)) (Fin 255);
          b = js_div (parseInt16 (substring hex 4 6)) (Fin 255);
          cmin = Math_min3 r g b;
          cmax = Math_max3 r g b;
          delta = js_sub cmax cmin;
          h0 = (if js_eq delta (Fin 0) then Fin 0
                else if js_eq cmax r then js_mod (js_div (js_sub g b) delta) (Fin 6)
                else if js_eq cmax g then js_add (js_div (js_sub b r) delta) (Fin 2)
                else js_add (js_div (js_sub r g) delta) (Fin 4));
          h1 = Math_round (js_mul h0 (Fin 60));
          h = (if js_lt h1 (Fin 0) then js_add h1 (Fin 360) else h1);
          l0 = js_div (js_add cmax cmin) (Fin 2);
          s0 = (if js_eq delta (Fin 0) then Fin 0
                else js_div delta (js_sub (Fin 1) (js_abs (js_sub (js_mul (Fin 2) l0) (Fin 1)))));
          s = toFixed1 (js_mul s0 (Fin 100));
          l = toFixed1 (js_mul l0 (Fin 100))
      in \<lparr>hsl_h = h, hsl_s = s, hsl_l = l\<rparr>)"

fun hexToHSL :: "jsval \<Rightarrow> error + hsl" where
  \<comment> \<open>\<^verbatim>\<open>hex.replace\<close> exists on strings only\<close>
  "hexToHSL (Str hex) = Inr (hexToHSL_str hex)"
| "hexToHSL _ = Inl TypeError"

definition hslToHex :: "jsnum \<Rightarrow> jsnum \<Rightarrow> jsnum \<Rightarrow> jsstring" where
  "hslToHex h s0 l0 =
     (let s = js_div s0 (Fin 100);
          l = js_div l0 (Fin 100);
          c = js_mul (js_sub (Fin 1) (js_abs (js_sub (js_mul (Fin 2) l) (Fin 1)))) s;
          x = js_mul c (js_sub (Fin 1)
                (js_abs (js_sub (js_mod (js_div h (Fin 60)) (Fin 2)) (Fin 1))));
          m = js_sub l (js_div c (Fin 2));
          (r, g, b) =
            (if js_le (Fin 0) h \<and> js_lt h (Fin 60) then (c, x, Fin 0)
             else if js_le (Fin 60) h \<and> js_lt h (Fin 120) then (x, c, Fin 0)
             else if js_le (Fin 120) h \<and> js_lt h (Fin 180) then (Fin 0, c, x)
             else if js_le (Fin 180) h \<and> js_lt h (Fin 240) then (Fin 0, x, c)
             else if js_le (Fin 240) h \<and> js_lt h (Fin 300) then (x, Fin 0, c)
             else (c, Fin 0, x));
          r' = padStart2 (toString16 (Math_round (js_mul (js_add r m) (Fin 255))));
          g' = padStart2 (toString16 (Math_round (js_mul (js_add g m) (Fin 255))));
          b' = padStart2 (toString16 (Math_round (js_mul (js_add b m) (Fin 255))))
      in [35] @ r' @ g' @ b')"

definition newHue :: "hsl \<Rightarrow> jsnum" where
  "newHue c = js_mod (js_add (hsl_h c) (Fin 180)) (Fin 360)"

definition newSaturation :: "hsl \<Rightarrow> jsnum" where
  "newSaturation c = Math_min2 (Math_max2 (hsl_s c) (Fin 60)) (Fin 90)"

definition newLightness :: "hsl \<Rightarrow> jsnum" where
  "newLightness c =
     (if js_lt (hsl_l c) (Fin 50) then Math_min2 (js_add (hsl_l c) (Fin 30)) (Fin 80)
      else Math_max2 (js_sub (hsl_l c) (Fin 30)) (Fin 30))"

definition calculateComplementaryColor :: "jsval \<Rightarrow> error + jsstring" where
  "calculateComplementaryColor hexColor =
     (if falsy hexColor then Inr (js ''#6495ED'')
      else case hexToHSL hexColor of
             Inl e \<Rightarrow> Inl e
           | Inr c \<Rightarrow> Inr (hslToHex (newHue c) (newSaturation c) (newLightness c)))"

record provider =
  logoUrl :: jsstring
  dominantColor :: jsval
  complementaryColor :: jsstring

definition LogoProvider_initial :: provider where
  \<comment> \<open>the three \<^verbatim>\<open>useState\<close> defaults of \<^verbatim>\<open>LogoProvider\<close>\<close>
  "LogoProvider_initial =
     \<lparr>logoUrl = [], dominantColor = Str (js ''#282c34''), complementaryColor = js ''#ED7D31''\<rparr>"

definition fetchHeaderStyle :: "(jsstring \<times> jsval) option \<Rightarrow> provider \<Rightarrow> provider" where
  \<comment> \<open>the response is \<open>None\<close> when the request fails or is not \<^verbatim>\<open>ok\<close>; otherwise it
      carries the logo address built from \<^verbatim>\<open>data.logoUrl\<close> and \<^verbatim>\<open>data.dominantColor\<close>\<close>
  "fetchHeaderStyle response st =
     (case response of
        None \<Rightarrow> st
      | Some (fullLogoUrl, d) \<Rightarrow> st\<lparr>logoUrl := fullLogoUrl, dominantColor := d\<rparr>)"

definition complementaryEffect :: "provider \<Rightarrow> error + provider" where
  \<comment> \<open>the effect that runs whenever \<^verbatim>\<open>dominantColor\<close> changes, and after the first render\<close>
  "complementaryEffect st =
     (case calculateComplementaryColor (dominantColor st) of
        Inl e \<Rightarrow> Inl e
      | Inr complementary \<Rightarrow> Inr (st\<lparr>complementaryColor := complementary\<rparr>))"


section \<open>Vocabulary of the properties\<close>

definition isHex6 :: "jsstring \<Rightarrow> bool" where
  \<comment> \<open>six hexadecimal digits, of either case\<close>
  "isHex6 cs = (length cs = 6 \<and> list_all (\<lambda>c. hexDigit c \<noteq> None) cs)"

definition isHexColor :: "jsstring \<Rightarrow> bool" where
  \<comment> \<open>the format \<^verbatim>\<open>#rrggbb\<close>, the leading \<^verbatim>\<open>#\<close> optional\<close>
  "isHexColor cs = isHex6 (stripHash cs)"

definition asciiLower :: "nat \<Rightarrow> nat" where
  "asciiLower c = (if 65 \<le> c \<and> c \<le> 90 then c + 32 else c)"

definition unparsedChannel :: "jsstring \<Rightarrow> bool" where
  \<comment> \<open>one of the three digit pairs does not start with a hexadecimal number\<close>
  "unparsedChannel cs =
     (parseInt16 (substring (stripHash cs) 0 2) = NaN
      \<or> parseInt16 (substring (stripHash cs) 2 4) = NaN
      \<or> parseInt16 (substring (stripHash cs) 4 6) = NaN)"

definition achromatic :: "jsstring \<Rightarrow> bool" where
  \<comment> \<open>the three channels parse to the same number: \<open>r = g = b\<close>\<close>
  "achromatic cs =
     (parseInt16 (substring (stripHash cs) 0 2) = parseInt16 (substring (stripHash cs) 2 4)
      \<and> parseInt16 (substring (stripHash cs) 2 4) = parseInt16 (substring (stripHash cs) 4 6))"


section \<open>Auxiliary definitions\<close>

text \<open>
  The three fields of \<open>hexToHSL\<close> as functions of the channels \<open>r\<close>, \<open>g\<close>, \<open>b\<close>; lemma
  \<open>hexToHSL_str_channels\<close> shows that \<open>hexToHSL_str\<close> is made of them.
\<close>

definition hueOfChannels :: "jsnum \<Rightarrow> jsnum \<Rightarrow> jsnum \<Rightarrow> jsnum" where
  "hueOfChannels r g b =
     (let cmin = Math_min3 r g b;
          cmax = Math_max3 r g b;
          delta = js_sub cmax cmin;
          h0 = (if js_eq delta (Fin 0) then Fin 0
                else if js_eq cmax r then js_mod (js_div (js_sub g b) delta) (Fin 6)
                else if js_eq cmax g then js_add (js_div (js_sub b r) delta) (Fin 2)
                else js_add (js_div (js_sub r g) delta) (Fin 4));
          h1 = Math_round (js_mul h0 (Fin 60))
      in if js_lt h1 (Fin 0) then js_add h1 (Fin 360) else h1)"

definition lightnessOfChannels :: "jsnum \<Rightarrow> jsnum \<Rightarrow> jsnum \<Rightarrow> jsnum" where
  "lightnessOfChannels r g b =
     (let cmin = Math_min3 r g b;
          cmax = Math_max3 r g b;
          l0 = js_div (js_add cmax cmin) (Fin 2)
      in toFixed1 (js_mul l0 (Fin 100)))"

definition saturationOfChannels :: "jsnum \<Rightarrow> jsnum \<Rightarrow> jsnum \<Rightarrow> jsnum" where
  "saturationOfChannels r g b =
     (let cmin = Math_min3 r g b;
          cmax = Math_max3 r g b;
          delta = js_sub cmax cmin;
          l0 = js_div (js_add cmax cmin) (Fin 2);
          s0 = (if js_eq delta (Fin 0) then Fin 0
                else js_div delta (js_sub (Fin 1) (js_abs (js_sub (js_mul (Fin 2) l0) (Fin 1)))))
      in toFixed1 (js_mul s0 (Fin 100)))"

definition chan :: "nat \<Rightarrow> rat" where
  \<comment> \<open>the channel value \<^verbatim>\<open>k / 255\<close> as the code computes it\<close>
  "chan k = flr (of_nat k / 255)"

text \<open>
  Rounding on numerator and denominator: the code equations \<open>ilog2_code\<close>, \<open>rne_code\<close>
  and \<open>flr_code\<close> below evaluate \<open>ilog2\<close>, \<open>rne\<close> and \<open>flr\<close> with integer arithmetic.
\<close>

definition rne_frac :: "int \<Rightarrow> int \<Rightarrow> int" where
  "rne_frac a b = (if 2 * (a mod b) < b then a div b
                   else if b < 2 * (a mod b) then a div b + 1
                   else if even (a div b) then a div b else a div b + 1)"

fun rne_pair :: "int \<times> int \<Rightarrow> int" where
  "rne_pair (a, b) = rne_frac a b"

definition ilog2_frac :: "int \<Rightarrow> int \<Rightarrow> int \<Rightarrow> int" where
  "ilog2_frac p q d =
     (if (if 0 \<le> d then 2 ^ nat d * q \<le> p else q \<le> p * 2 ^ nat (- d)) then d else d - 1)"

fun ilog2_pair :: "int \<times> int \<Rightarrow> int" where
  "ilog2_pair (p, q) = ilog2_frac p q (bitlen p - bitlen q)"

definition flr_frac :: "int \<Rightarrow> int \<Rightarrow> int \<Rightarrow> rat" where
  "flr_frac e p q =
     (if 0 \<le> e then of_int (rne_frac p (q * 2 ^ nat e) * 2 ^ nat e)
      else Fract (rne_frac (p * 2 ^ nat (- e)) q) (2 ^ nat (- e)))"

fun flr_pair :: "int \<times> int \<Rightarrow> rat" where
  "flr_pair (p, q) =
     (if p = 0 then 0
      else flr_frac (max (ilog2_frac \<bar>p\<bar> q (bitlen \<bar>p\<bar> - bitlen q)) (- 1022) - 52) p q)"





section \<open>Lemmas\<close>

subsection \<open>Powers of two and the binary logarithm\<close>

lemma pow2_less_iff: "(2::rat) powi a < 2 powi b \<longleftrightarrow> a < b"
proof
  assume "(2::rat) powi a < 2 powi b"
  show "a < b"
  proof (rule ccontr)
    assume "\<not> a < b"
    then have "b \<le> a" by simp
    then have "(2::rat) powi b \<le> 2 powi a" by (intro power_int_increasing) auto
    with \<open>(2::rat) powi a < 2 powi b\<close> show False by simp
  qed
next
  assume "a < b"
  then show "(2::rat) powi a < 2 powi b" by (intro power_int_strict_increasing) auto
qed

lemma pow2_le_iff: "(2::rat) powi a \<le> 2 powi b \<longleftrightarrow> a \<le> b"
  using pow2_less_iff [of b a] by (auto simp: not_less [symmetric])

lemma pow2_pos: "(0::rat) < 2 powi a"
  by simp

lemma bitlen_powi_bounds:
  assumes "0 < (p::int)"
  shows "(2::rat) powi (bitlen p - 1) \<le> of_int p" and "of_int p < (2::rat) powi bitlen p"
proof -
  from assms have b1: "1 \<le> bitlen p" by (simp add: bitlen_alt_def)
  from bitlen_bounds [OF assms]
  have lo: "2 ^ nat (bitlen p - 1) \<le> p" and hi: "p < 2 ^ nat (bitlen p)" by auto
  have "(of_int (2 ^ nat (bitlen p - 1)) :: rat) \<le> of_int p"
    using lo by (simp only: of_int_le_iff)
  then show "(2::rat) powi (bitlen p - 1) \<le> of_int p"
    using b1 by (simp add: power_int_def)
  have "(of_int p :: rat) < of_int (2 ^ nat (bitlen p))"
    using hi by (simp only: of_int_less_iff)
  then show "of_int p < (2::rat) powi bitlen p"
    using b1 by (simp add: power_int_def)
qed

lemma ilog2_bounds:
  assumes "0 < x"
  shows "2 powi ilog2 x \<le> x" and "x < 2 powi (ilog2 x + 1)"
proof -
  obtain p q where pq: "quotient_of x = (p, q)" by (cases "quotient_of x")
  then have q: "0 < q" and x: "x = of_int p / of_int q"
    by (auto simp: quotient_of_denom_pos quotient_of_div)
  from assms x q have p: "0 < p" by (simp add: zero_less_divide_iff)
  define d where "d = bitlen p - bitlen q"
  have qr: "(0::rat) < of_int q" using q by simp
  have "x < 2 powi bitlen p / 2 powi (bitlen q - 1)"
    unfolding x
    using bitlen_powi_bounds [OF p] bitlen_powi_bounds [OF q] qr p
    by (intro frac_less) auto
  moreover have "2 powi bitlen p / 2 powi (bitlen q - 1) = (2::rat) powi (bitlen p - (bitlen q - 1))"
    by (rule power_int_diff [symmetric]) simp
  moreover have "bitlen p - (bitlen q - 1) = d + 1" by (simp add: d_def)
  ultimately have up: "x < 2 powi (d + 1)"
    by (simp only:)
  have "2 powi (bitlen p - 1) / 2 powi bitlen q < x"
    unfolding x
    using bitlen_powi_bounds [OF p] bitlen_powi_bounds [OF q] qr p
    by (intro frac_less2) auto
  moreover have "2 powi (bitlen p - 1) / 2 powi bitlen q = (2::rat) powi (bitlen p - 1 - bitlen q)"
    by (rule power_int_diff [symmetric]) simp
  moreover have "bitlen p - 1 - bitlen q = d - 1" by (simp add: d_def)
  ultimately have lo: "2 powi (d - 1) < x"
    by (simp only:)
  have il: "ilog2 x = (if 2 powi d \<le> x then d else d - 1)"
    by (simp add: ilog2_def pq d_def Let_def)
  show "2 powi ilog2 x \<le> x" using lo by (simp add: il)
  show "x < 2 powi (ilog2 x + 1)" using up by (simp add: il)
qed

lemma ilog2_unique:
  assumes "0 < x" "2 powi e \<le> x" "x < 2 powi (e + 1)"
  shows "ilog2 x = e"
proof -
  from ilog2_bounds [OF assms(1)] assms
  have "(2::rat) powi ilog2 x < 2 powi (e + 1)" "(2::rat) powi e < 2 powi (ilog2 x + 1)"
    by auto
  then have "ilog2 x < e + 1" "e < ilog2 x + 1"
    by (simp_all add: pow2_less_iff)
  then show ?thesis by simp
qed

lemma ilog2_less:
  assumes "0 < x" "x < 2 powi e"
  shows "ilog2 x < e"
proof -
  from ilog2_bounds(1) [OF assms(1)] assms(2)
  have "(2::rat) powi ilog2 x < 2 powi e" by simp
  then show ?thesis by (simp add: pow2_less_iff)
qed

lemma ilog2_ge:
  assumes "0 < x" "2 powi e \<le> x"
  shows "e \<le> ilog2 x"
proof -
  from ilog2_bounds(2) [OF assms(1)] assms(2)
  have "(2::rat) powi e < 2 powi (ilog2 x + 1)" by simp
  then have "e < ilog2 x + 1" by (simp add: pow2_less_iff)
  then show ?thesis by simp
qed

lemma ilog2_mono:
  assumes "0 < x" "x \<le> y"
  shows "ilog2 x \<le> ilog2 y"
  using ilog2_ge [of y "ilog2 x"] ilog2_bounds(1) [OF assms(1)] assms by simp

subsection \<open>Rounding to the nearest integer\<close>

lemma rne_of_int: "rne (of_int n) = n"
  by (simp add: rne_def)

lemma rne_range: "\<lfloor>x\<rfloor> \<le> rne x" "rne x \<le> \<lfloor>x\<rfloor> + 1"
  by (simp_all add: rne_def Let_def)

lemma rne_le:
  assumes "x \<le> of_int n"
  shows "rne x \<le> n"
proof (cases "x = of_int n")
  case True
  then show ?thesis by (simp add: rne_of_int)
next
  case False
  with assms have "x < of_int n" by simp
  then have "\<lfloor>x\<rfloor> < n" by (simp add: floor_less_iff)
  with rne_range(2) [of x] show ?thesis by simp
qed

lemma rne_ge:
  assumes "of_int n \<le> x"
  shows "n \<le> rne x"
proof -
  from assms have "n \<le> \<lfloor>x\<rfloor>" by (simp add: le_floor_iff)
  with rne_range(1) [of x] show ?thesis by simp
qed

lemma rne_mono:
  assumes "x \<le> y"
  shows "rne x \<le> rne y"
proof (cases "\<lfloor>x\<rfloor> = \<lfloor>y\<rfloor>")
  case True
  with assms have "x - of_int \<lfloor>x\<rfloor> \<le> y - of_int \<lfloor>y\<rfloor>" by simp
  with True show ?thesis by (auto simp: rne_def Let_def)
next
  case False
  with assms floor_mono [OF assms] have "\<lfloor>x\<rfloor> + 1 \<le> \<lfloor>y\<rfloor>" by simp
  with rne_range(2) [of x] rne_range(1) [of y] show ?thesis by simp
qed

lemma rne_minus: "rne (- x) = - rne x"
proof (cases "x = of_int \<lfloor>x\<rfloor>")
  case True
  then obtain n where "x = of_int n" ..
  then have "- x = of_int (- n)" by simp
  then show ?thesis using \<open>x = of_int n\<close> by (simp only: rne_of_int)
next
  case False
  then have fl: "\<lfloor>- x\<rfloor> = - \<lfloor>x\<rfloor> - 1"
    by (simp add: floor_minus ceiling_altdef)
  define f where "f = \<lfloor>x\<rfloor>"
  define d where "d = x - of_int f"
  have d': "- x - of_int (- \<lfloor>x\<rfloor> - 1) = 1 - d"
    by (simp add: d_def f_def)
  have r1: "rne x = (if d < 1 / 2 then f else if 1 / 2 < d then f + 1 else if even f then f else f + 1)"
    by (simp add: rne_def Let_def d_def f_def)
  have r2: "rne (- x) = (if 1 - d < 1 / 2 then - f - 1 else if 1 / 2 < 1 - d then - f
                         else if even (- f - 1) then - f - 1 else - f)"
    unfolding rne_def Let_def fl d' f_def by simp
  consider "d < 1 / 2" | "1 / 2 < d" | "d = 1 / 2" by linarith
  then show ?thesis
  proof cases
    case 1
    then show ?thesis by (simp add: r1 r2)
  next
    case 2
    then show ?thesis by (simp add: r1 r2)
  next
    case 3
    then show ?thesis by (simp add: r1 r2)
  qed
qed

subsection \<open>Rounding to binary64\<close>

lemma flr_0: "flr 0 = 0"
  by (simp add: flr_def)

lemma ulp_exp_minus: "ulp_exp (- x) = ulp_exp x"
  by (simp add: ulp_exp_def)

lemma flr_minus: "flr (- x) = - flr x"
  by (simp add: flr_def ulp_exp_minus rne_minus)

lemma ulp_exp_ge: "- 1074 \<le> ulp_exp x"
  by (simp add: ulp_exp_def)

lemma ulp_exp_mono:
  assumes "0 < x" "x \<le> y"
  shows "ulp_exp x \<le> ulp_exp y"
  using ilog2_mono [of "\<bar>x\<bar>" "\<bar>y\<bar>"] assms by (simp add: ulp_exp_def)

lemma flr_grid:
  assumes x: "x = of_int k * 2 powi j" and k: "\<bar>k\<bar> < 2 ^ 53" and j: "- 1074 \<le> j"
  shows "flr x = x"
proof (cases "x = 0")
  case True
  then show ?thesis by (simp add: flr_0)
next
  case False
  define e where "e = ulp_exp x"
  have pos: "0 < \<bar>x\<bar>" using False by simp
  have "\<bar>x\<bar> = of_int \<bar>k\<bar> * 2 powi j"
    by (simp add: x abs_mult)
  also have "\<dots> < 2 ^ 53 * 2 powi j"
  proof -
    have "(of_int \<bar>k\<bar> :: rat) < of_int (2 ^ 53)" using k by (simp only: of_int_less_iff)
    then show ?thesis by (simp add: mult_strict_right_mono)
  qed
  also have "\<dots> = 2 powi (53 + j)"
    by (simp add: power_int_add)
  finally have "ilog2 \<bar>x\<bar> < 53 + j" using pos by (intro ilog2_less)
  with j have ej: "e \<le> j" by (simp add: e_def ulp_exp_def)
  have "2 powi j = (2::rat) powi (j - e) * 2 powi e"
    by (simp add: power_int_add [symmetric])
  also have "(2::rat) powi (j - e) = of_int (2 ^ nat (j - e))"
    using ej by (simp add: power_int_def)
  finally have "x / 2 powi e = of_int (k * 2 ^ nat (j - e))"
    by (simp add: x)
  then have "rne (x / 2 powi e) = k * 2 ^ nat (j - e)"
    by (simp only: rne_of_int)
  then have "flr x = of_int (k * 2 ^ nat (j - e)) * 2 powi e"
    using False by (simp add: flr_def e_def)
  also have "\<dots> = x / 2 powi e * 2 powi e"
    using \<open>x / 2 powi e = of_int (k * 2 ^ nat (j - e))\<close> by simp
  also have "\<dots> = x" by simp
  finally show ?thesis .
qed

lemma flr_of_int:
  assumes "\<bar>k\<bar> < 2 ^ 53"
  shows "flr (of_int k) = of_int k"
  using flr_grid [of "of_int k" k 0] assms by simp

lemma flr_nonneg:
  assumes "0 \<le> x"
  shows "0 \<le> flr x"
proof (cases "x = 0")
  case True
  then show ?thesis by (simp add: flr_0)
next
  case False
  with assms have "0 \<le> x / 2 powi ulp_exp x" by simp
  then have "0 \<le> rne (x / 2 powi ulp_exp x)" using rne_ge [of 0] by simp
  then show ?thesis using False by (simp add: flr_def)
qed

lemma flr_mono_pos:
  assumes "0 < x" "x \<le> y"
  shows "flr x \<le> flr y"
proof -
  define ex where "ex = ulp_exp x"
  define ey where "ey = ulp_exp y"
  have y: "0 < y" using assms by simp
  have exy: "ex \<le> ey" unfolding ex_def ey_def using assms by (rule ulp_exp_mono)
  have fx: "flr x = of_int (rne (x / 2 powi ex)) * 2 powi ex"
    using assms(1) by (simp add: flr_def ex_def)
  have fy: "flr y = of_int (rne (y / 2 powi ey)) * 2 powi ey"
    using y by (simp add: flr_def ey_def)
  show ?thesis
  proof (cases "ex = ey")
    case True
    have "x / 2 powi ex \<le> y / 2 powi ex"
      using assms(2) by (simp add: divide_right_mono)
    then have "rne (x / 2 powi ex) \<le> rne (y / 2 powi ex)" by (rule rne_mono)
    then have "(of_int (rne (x / 2 powi ex)) :: rat) \<le> of_int (rne (y / 2 powi ex))"
      by (simp only: of_int_le_iff)
    then show ?thesis unfolding fx fy True [symmetric]
      by (simp add: mult_right_mono)
  next
    case False
    with exy have lt: "ex + 1 \<le> ey" by simp
    have "ilog2 x \<le> ex + 52" using assms(1) by (simp add: ex_def ulp_exp_def)
    then have "(2::rat) powi (ilog2 x + 1) \<le> 2 powi (ex + 53)"
      by (simp add: pow2_le_iff)
    with ilog2_bounds(2) [OF assms(1)] have "x < 2 powi (ex + 53)" by simp
    also have "\<dots> = 2 ^ 53 * 2 powi ex" by (simp add: power_int_add)
    finally have "x / 2 powi ex \<le> of_int (2 ^ 53)"
      by (simp add: pos_divide_le_eq)
    then have "rne (x / 2 powi ex) \<le> 2 ^ 53" by (rule rne_le)
    then have "(of_int (rne (x / 2 powi ex)) :: rat) \<le> of_int (2 ^ 53)"
      by (simp only: of_int_le_iff)
    then have "flr x \<le> 2 ^ 53 * 2 powi ex"
      unfolding fx by (simp add: mult_right_mono)
    also have "\<dots> = 2 powi (ex + 53)" by (simp add: power_int_add)
    also have "\<dots> \<le> 2 powi (ey + 52)" using lt by (simp add: pow2_le_iff)
    finally have A: "flr x \<le> 2 powi (ey + 52)" .
    have "- 1074 \<le> ex" unfolding ex_def by (rule ulp_exp_ge)
    with lt have "- 1074 < ey" by simp
    then have "ilog2 y = ey + 52" using y by (simp add: ey_def ulp_exp_def max_def split: if_splits)
    with ilog2_bounds(1) [OF y] have "2 powi (ey + 52) \<le> y" by simp
    moreover have "(2::rat) powi (ey + 52) = 2 ^ 52 * 2 powi ey" by (simp add: power_int_add)
    ultimately have "of_int (2 ^ 52) \<le> y / 2 powi ey"
      by (simp add: pos_le_divide_eq)
    then have "2 ^ 52 \<le> rne (y / 2 powi ey)" by (rule rne_ge)
    then have "(of_int (2 ^ 52) :: rat) \<le> of_int (rne (y / 2 powi ey))"
      by (simp only: of_int_le_iff)
    then have "2 ^ 52 * 2 powi ey \<le> flr y"
      unfolding fy by (simp add: mult_right_mono)
    then have B: "2 powi (ey + 52) \<le> flr y" by (simp add: power_int_add)
    from A B show ?thesis by simp
  qed
qed

lemma flr_mono:
  assumes "x \<le> y"
  shows "flr x \<le> flr y"
proof -
  consider "0 < x" | "x \<le> 0" "0 \<le> y" | "y < 0" by linarith
  then show ?thesis
  proof cases
    case 1
    then show ?thesis using assms by (rule flr_mono_pos)
  next
    case 2
    from 2(1) have "0 \<le> flr (- x)" by (intro flr_nonneg) simp
    then have "flr x \<le> 0" by (simp add: flr_minus)
    with flr_nonneg [OF 2(2)] show ?thesis by simp
  next
    case 3
    then have "flr (- y) \<le> flr (- x)" using assms by (intro flr_mono_pos) simp_all
    then show ?thesis by (simp add: flr_minus)
  qed
qed

lemma flr_ge:
  assumes "of_int k \<le> x" "\<bar>k\<bar> < 2 ^ 53"
  shows "of_int k \<le> flr x"
  using flr_mono [OF assms(1)] flr_of_int [OF assms(2)] by simp

lemma flr_le:
  assumes "x \<le> of_int k" "\<bar>k\<bar> < 2 ^ 53"
  shows "flr x \<le> of_int k"
  using flr_mono [OF assms(1)] flr_of_int [OF assms(2)] by simp

lemma flr_err:
  assumes "\<bar>x\<bar> \<le> 4096"
  shows "\<bar>flr x - x\<bar> \<le> 1 / 2 ^ 40"
proof -
  define k1 where "k1 = \<lfloor>x * 2 ^ 40\<rfloor>"
  define k2 where "k2 = \<lceil>x * 2 ^ 40\<rceil>"
  have xb: "- (4096 * 2 ^ 40) \<le> x * 2 ^ 40" "x * 2 ^ 40 \<le> 4096 * 2 ^ 40"
    using assms by (simp_all add: abs_le_iff)
  have "of_int (- (4096 * 2 ^ 40)) \<le> x * 2 ^ 40" using xb(1) by simp
  then have k1lo: "- (4096 * 2 ^ 40) \<le> k1" unfolding k1_def by (simp only: le_floor_iff)
  have "x * 2 ^ 40 \<le> of_int (4096 * 2 ^ 40)" using xb(2) by simp
  then have k2hi: "k2 \<le> 4096 * 2 ^ 40" unfolding k2_def by (simp only: ceiling_le_iff)
  have k12: "k1 \<le> k2" "k2 \<le> k1 + 1"
    unfolding k1_def k2_def by (simp_all add: floor_le_ceiling ceiling_altdef)
  have b1: "\<bar>k1\<bar> < 2 ^ 53" and b2: "\<bar>k2\<bar> < 2 ^ 53"
    using k1lo k2hi k12 by simp_all
  have g1: "flr (of_int k1 * 2 powi (- 40)) = of_int k1 * 2 powi (- 40)"
    by (rule flr_grid [OF refl b1]) simp
  have g2: "flr (of_int k2 * 2 powi (- 40)) = of_int k2 * 2 powi (- 40)"
    by (rule flr_grid [OF refl b2]) simp
  have p40: "(2::rat) powi (- 40) = 1 / 2 ^ 40"
    by (simp add: power_int_minus_divide)
  have "of_int k1 \<le> x * 2 ^ 40" unfolding k1_def by simp
  then have lo: "of_int k1 * 2 powi (- 40) \<le> x"
    unfolding p40 by (simp add: pos_divide_le_eq)
  have "x * 2 ^ 40 \<le> of_int k2" unfolding k2_def by simp
  then have hi: "x \<le> of_int k2 * 2 powi (- 40)"
    unfolding p40 by (simp add: pos_le_divide_eq)
  from flr_mono [OF lo] g1 have L: "of_int k1 * 2 powi (- 40) \<le> flr x" by simp
  from flr_mono [OF hi] g2 have H: "flr x \<le> of_int k2 * 2 powi (- 40)" by simp
  have "(of_int k2 :: rat) \<le> of_int (k1 + 1)" using k12(2) by (simp only: of_int_le_iff)
  then have ba: "(of_int k2 :: rat) * 2 powi (- 40) \<le> of_int k1 * 2 powi (- 40) + 1 / 2 ^ 40"
    unfolding p40 by (simp add: field_simps)
  define a where "a = (of_int k1 :: rat) * 2 powi (- 40)"
  define b where "b = (of_int k2 :: rat) * 2 powi (- 40)"
  define eps where "eps = (1::rat) / 2 ^ 40"
  from L H lo hi ba have "a \<le> flr x" "flr x \<le> b" "a \<le> x" "x \<le> b" "b \<le> a + eps"
    unfolding a_def b_def eps_def by blast+
  then have "\<bar>flr x - x\<bar> \<le> eps" by linarith
  then show ?thesis unfolding eps_def .
qed

lemma flr_abs_le:
  assumes "\<bar>x\<bar> \<le> 4096"
  shows "\<bar>flr x\<bar> \<le> 4096"
proof -
  have "of_int (- 4096) \<le> x" "x \<le> of_int 4096" using assms by (simp_all add: abs_le_iff)
  then have "of_int (- 4096) \<le> flr x" "flr x \<le> of_int 4096"
    by (intro flr_ge flr_le; simp)+
  then show ?thesis by (simp add: abs_le_iff)
qed

lemma fl_Fin:
  assumes "\<bar>x\<bar> \<le> 4096"
  shows "fl x = Fin (flr x)"
proof (cases "flr x = 0")
  case True
  then show ?thesis by (simp add: fl_def overflow_def)
next
  case False
  then have "0 < \<bar>flr x\<bar>" by simp
  moreover have "\<bar>flr x\<bar> < 2 powi 13" using flr_abs_le [OF assms] by simp
  ultimately have "ilog2 \<bar>flr x\<bar> < 13" by (rule ilog2_less)
  then show ?thesis by (simp add: fl_def overflow_def)
qed

lemma fl_0: "fl 0 = Fin 0"
  by (simp add: fl_def overflow_def flr_0)

lemma fl_of_int:
  assumes "\<bar>k\<bar> \<le> 4096"
  shows "fl (of_int k) = Fin (of_int k)"
proof -
  have "(of_int \<bar>k\<bar> :: rat) \<le> of_int 4096" using assms by (simp only: of_int_le_iff)
  then have "\<bar>of_int k :: rat\<bar> \<le> 4096" by simp
  moreover have "\<bar>k\<bar> < 2 ^ 53" using assms by simp
  ultimately show ?thesis by (simp add: fl_Fin flr_of_int)
qed

subsection \<open>Code equations for rounding\<close>

lemma rne_frac:
  assumes b: "0 < b"
  shows "rne (of_int a / of_int b) = rne_frac a b"
proof -
  define x :: rat where "x = of_int a / of_int b"
  have f: "\<lfloor>x\<rfloor> = a div b" unfolding x_def by (rule floor_divide_of_int_eq)
  have "of_int a = (of_int (a div b * b + a mod b) :: rat)" by simp
  also have "\<dots> = of_int (a div b) * of_int b + of_int (a mod b)"
    by (simp only: of_int_add of_int_mult)
  finally have "x = of_int (a div b) + of_int (a mod b) / of_int b"
    unfolding x_def using b by (simp add: field_simps)
  then have d: "x - of_int (a div b) = of_int (a mod b) / of_int b" by simp
  have lt: "of_int (a mod b) / (of_int b :: rat) < 1 / 2 \<longleftrightarrow> 2 * (a mod b) < b"
  proof -
    have "of_int (a mod b) / (of_int b :: rat) < 1 / 2 \<longleftrightarrow> (of_int (2 * (a mod b)) :: rat) < of_int b"
      using b by (simp add: field_simps)
    then show ?thesis by (simp only: of_int_less_iff)
  qed
  have gt: "1 / 2 < of_int (a mod b) / (of_int b :: rat) \<longleftrightarrow> b < 2 * (a mod b)"
  proof -
    have "1 / 2 < of_int (a mod b) / (of_int b :: rat) \<longleftrightarrow> (of_int b :: rat) < of_int (2 * (a mod b))"
      using b by (simp add: field_simps)
    then show ?thesis by (simp only: of_int_less_iff)
  qed
  have "rne x = rne_frac a b"
    unfolding rne_def rne_frac_def Let_def f d lt gt ..
  then show ?thesis by (simp only: x_def)
qed

lemma rne_code [code]: "rne x = rne_pair (quotient_of x)"
proof -
  obtain a b where q: "quotient_of x = (a, b)" by (cases "quotient_of x")
  then have b: "0 < b" and x: "x = of_int a / of_int b"
    by (auto simp: quotient_of_denom_pos quotient_of_div)
  show ?thesis using rne_frac [OF b, of a] by (simp add: q x [symmetric])
qed

lemma pow2_le_frac:
  assumes q: "0 < q"
  shows "((2::rat) powi d \<le> of_int p / of_int q)
     = (if 0 \<le> d then 2 ^ nat d * q \<le> p else q \<le> p * 2 ^ nat (- d))"
proof (cases "0 \<le> d")
  case True
  then have "(2::rat) powi d = of_int (2 ^ nat d)" by (simp add: power_int_def)
  then have "((2::rat) powi d \<le> of_int p / of_int q) = ((of_int (2 ^ nat d * q) :: rat) \<le> of_int p)"
    using q by (simp add: field_simps)
  then show ?thesis using True by (simp only: of_int_le_iff if_True)
next
  case False
  define c :: rat where "c = of_int (2 ^ nat (- d))"
  have c: "0 < c" by (simp add: c_def)
  from False have "(2::rat) powi d = 1 / c"
    by (simp add: c_def power_int_def inverse_eq_divide power_one_over [symmetric] del: power_one_over)
  moreover have "(1 / c \<le> of_int p / of_int q) = ((of_int q :: rat) \<le> of_int p * c)"
    using q c by (simp add: field_simps)
  ultimately have "((2::rat) powi d \<le> of_int p / of_int q) = ((of_int q :: rat) \<le> of_int (p * 2 ^ nat (- d)))"
    unfolding c_def by (simp only: of_int_mult)
  then show ?thesis using False by (simp only: of_int_le_iff if_False)
qed

lemma ilog2_frac:
  assumes p: "0 < p" and q: "0 < q"
  shows "ilog2 (of_int p / of_int q) = ilog2_frac p q (bitlen p - bitlen q)"
proof -
  define x :: rat where "x = of_int p / of_int q"
  define d where "d = bitlen p - bitlen q"
  have xpos: "0 < x" using p q by (simp add: x_def)
  have qr: "(0::rat) < of_int q" using q by simp
  have "x < 2 powi bitlen p / 2 powi (bitlen q - 1)"
    unfolding x_def
    using bitlen_powi_bounds [OF p] bitlen_powi_bounds [OF q] qr p
    by (intro frac_less) auto
  moreover have "2 powi bitlen p / 2 powi (bitlen q - 1) = (2::rat) powi (bitlen p - (bitlen q - 1))"
    by (rule power_int_diff [symmetric]) simp
  moreover have "bitlen p - (bitlen q - 1) = d + 1" by (simp add: d_def)
  ultimately have up: "x < 2 powi (d + 1)"
    by (simp only:)
  have "2 powi (bitlen p - 1) / 2 powi bitlen q < x"
    unfolding x_def
    using bitlen_powi_bounds [OF p] bitlen_powi_bounds [OF q] qr p
    by (intro frac_less2) auto
  moreover have "2 powi (bitlen p - 1) / 2 powi bitlen q = (2::rat) powi (bitlen p - 1 - bitlen q)"
    by (rule power_int_diff [symmetric]) simp
  moreover have "bitlen p - 1 - bitlen q = d - 1" by (simp add: d_def)
  ultimately have lo: "2 powi (d - 1) < x"
    by (simp only:)
  have c: "(2 powi d \<le> x) = (if 0 \<le> d then 2 ^ nat d * q \<le> p else q \<le> p * 2 ^ nat (- d))"
    unfolding x_def using q by (rule pow2_le_frac)
  have "ilog2 x = (if 2 powi d \<le> x then d else d - 1)"
  proof (cases "2 powi d \<le> x")
    case True
    with ilog2_unique [OF xpos True up] show ?thesis by simp
  next
    case False
    then have "x < 2 powi (d - 1 + 1)" by simp
    with ilog2_unique [OF xpos _ this] lo False show ?thesis by simp
  qed
  then have "ilog2 x = ilog2_frac p q d" by (simp only: c ilog2_frac_def)
  then show ?thesis by (simp only: x_def d_def)
qed

lemma ilog2_code [code]: "ilog2 x = ilog2_pair (quotient_of x)"
proof -
  obtain p q where pq: "quotient_of x = (p, q)" by (cases "quotient_of x")
  then have q: "0 < q" and x: "x = of_int p / of_int q"
    by (auto simp: quotient_of_denom_pos quotient_of_div)
  have "ilog2 x = (if (2::rat) powi (bitlen p - bitlen q) \<le> of_int p / of_int q
                   then bitlen p - bitlen q else bitlen p - bitlen q - 1)"
    by (simp add: ilog2_def pq Let_def x [symmetric])
  also have "\<dots> = ilog2_frac p q (bitlen p - bitlen q)"
    by (simp only: pow2_le_frac [OF q] ilog2_frac_def)
  finally show ?thesis by (simp add: pq)
qed

lemma flr_frac:
  assumes q: "0 < q"
  shows "of_int (rne (of_int p / of_int q / 2 powi e)) * 2 powi e = flr_frac e p q"
proof (cases "0 \<le> e")
  case True
  then have p2: "(2::rat) powi e = of_int (2 ^ nat e)" by (simp add: power_int_def)
  have "of_int p / of_int q / 2 powi e = (of_int p :: rat) / (of_int q * of_int (2 ^ nat e))"
    by (simp only: p2 divide_divide_eq_left)
  also have "\<dots> = of_int p / of_int (q * 2 ^ nat e)"
    by (simp only: of_int_mult)
  finally have e1: "of_int p / of_int q / 2 powi e = (of_int p :: rat) / of_int (q * 2 ^ nat e)" .
  have "0 < q * 2 ^ nat e" using q by simp
  then have "rne (of_int p / of_int q / 2 powi e) = rne_frac p (q * 2 ^ nat e)"
    unfolding e1 by (rule rne_frac)
  then have "of_int (rne (of_int p / of_int q / 2 powi e)) * (2::rat) powi e
      = of_int (rne_frac p (q * 2 ^ nat e)) * of_int (2 ^ nat e)"
    by (simp only: p2)
  also have "\<dots> = of_int (rne_frac p (q * 2 ^ nat e) * 2 ^ nat e)"
    by (simp only: of_int_mult)
  finally show ?thesis using True by (simp only: flr_frac_def if_True)
next
  case False
  define c :: int where "c = 2 ^ nat (- e)"
  have c: "0 < c" by (simp add: c_def)
  from False have p2: "(2::rat) powi e = 1 / of_int c"
    by (simp add: c_def power_int_def inverse_eq_divide power_one_over [symmetric] del: power_one_over)
  have e1: "of_int p / of_int q / 2 powi e = (of_int (p * c) :: rat) / of_int q"
    unfolding p2 by simp
  have "rne (of_int p / of_int q / 2 powi e) = rne_frac (p * c) q"
    unfolding e1 using q by (rule rne_frac)
  then have "of_int (rne (of_int p / of_int q / 2 powi e)) * (2::rat) powi e
      = of_int (rne_frac (p * c) q) * (1 / of_int c)"
    by (simp add: p2)
  also have "\<dots> = Fract (rne_frac (p * c) q) c"
    by (simp add: Fract_of_int_quotient)
  finally show ?thesis using False by (simp add: flr_frac_def c_def)
qed

lemma flr_code [code]: "flr x = flr_pair (quotient_of x)"
proof -
  obtain p q where pq: "quotient_of x = (p, q)" by (cases "quotient_of x")
  then have q: "0 < q" and x: "x = of_int p / of_int q"
    by (auto simp: quotient_of_denom_pos quotient_of_div)
  show ?thesis
  proof (cases "p = 0")
    case True
    then show ?thesis by (simp add: pq x flr_0)
  next
    case False
    then have x0: "x \<noteq> 0" using q by (simp add: x)
    have "\<bar>x\<bar> = of_int \<bar>p\<bar> / of_int q" using q by (simp add: x)
    moreover have "0 < \<bar>p\<bar>" using False by simp
    ultimately have "ilog2 \<bar>x\<bar> = ilog2_frac \<bar>p\<bar> q (bitlen \<bar>p\<bar> - bitlen q)"
      using ilog2_frac [OF _ q, of "\<bar>p\<bar>"] by simp
    then have u: "ulp_exp x = max (ilog2_frac \<bar>p\<bar> q (bitlen \<bar>p\<bar> - bitlen q)) (- 1022) - 52"
      by (simp add: ulp_exp_def)
    have "flr x = of_int (rne (of_int p / of_int q / 2 powi ulp_exp x)) * 2 powi ulp_exp x"
      using x0 by (simp add: flr_def x [symmetric])
    also have "\<dots> = flr_frac (ulp_exp x) p q" using q by (rule flr_frac)
    finally show ?thesis using False by (simp add: pq u)
  qed
qed

subsection \<open>Arithmetic on finite numbers\<close>

lemma js_add_Fin:
  assumes "\<bar>a + b\<bar> \<le> 4096"
  shows "js_add (Fin a) (Fin b) = Fin (flr (a + b))"
  using fl_Fin [OF assms] by simp

lemma js_sub_Fin:
  assumes "\<bar>a - b\<bar> \<le> 4096"
  shows "js_sub (Fin a) (Fin b) = Fin (flr (a - b))"
  using fl_Fin [of "a - b"] assms by (simp add: js_sub_def)

lemma js_mul_Fin:
  assumes "\<bar>a * b\<bar> \<le> 4096"
  shows "js_mul (Fin a) (Fin b) = Fin (flr (a * b))"
  using fl_Fin [OF assms] by simp

lemma js_div_Fin:
  assumes "b \<noteq> 0" "\<bar>a / b\<bar> \<le> 4096"
  shows "js_div (Fin a) (Fin b) = Fin (flr (a / b))"
  using fl_Fin [OF assms(2)] assms(1) by simp

lemma Math_max2_Fin: "Math_max2 (Fin a) (Fin b) = Fin (max a b)"
  by (simp add: Math_max2_def max_def)

lemma Math_min2_Fin: "Math_min2 (Fin a) (Fin b) = Fin (min a b)"
  by (simp add: Math_min2_def min_def)

lemma Math_max3_Fin: "Math_max3 (Fin a) (Fin b) (Fin c) = Fin (max (max a b) c)"
  by (simp add: Math_max3_def Math_max2_Fin)

lemma Math_min3_Fin: "Math_min3 (Fin a) (Fin b) (Fin c) = Fin (min (min a b) c)"
  by (simp add: Math_min3_def Math_min2_Fin)

lemma js_eq_Fin: "js_eq (Fin a) (Fin b) = (a = b)"
  by (simp add: js_eq_def)

lemma js_le_Fin: "js_le (Fin a) (Fin b) = (a \<le> b)"
  by (auto simp: js_le_def)

lemma flr_between:
  assumes "of_int lo \<le> x" "x \<le> of_int hi" "\<bar>lo\<bar> \<le> 4096" "\<bar>hi\<bar> \<le> 4096"
  shows "of_int lo \<le> flr x" "flr x \<le> of_int hi" "\<bar>x\<bar> \<le> 4096"
proof -
  show "of_int lo \<le> flr x" using assms by (intro flr_ge) simp_all
  show "flr x \<le> of_int hi" using assms by (intro flr_le) simp_all
  have "(of_int (- 4096) :: rat) \<le> of_int lo" "(of_int hi :: rat) \<le> of_int 4096"
    using assms by (simp_all only: of_int_le_iff abs_le_iff) simp_all
  with assms(1,2) show "\<bar>x\<bar> \<le> 4096" by (simp add: abs_le_iff)
qed

lemma toFixed1_range:
  assumes "0 \<le> a" "a \<le> 100 + 1 / 25"
  shows "\<exists>n. 0 \<le> n \<and> n \<le> 1000 \<and> toFixed1 (Fin a) = Fin (flr (of_int n / 10))"
proof -
  define n where "n = \<lfloor>\<bar>a\<bar> * 10 + 1 / 2\<rfloor>"
  have a: "\<bar>a\<bar> = a" using assms by simp
  have "of_int 0 \<le> \<bar>a\<bar> * 10 + 1 / 2" using assms by simp
  then have n0: "0 \<le> n" unfolding n_def by (simp only: le_floor_iff)
  have "\<bar>a\<bar> * 10 + 1 / 2 < of_int 1001" using assms a by simp
  then have "n < 1001" unfolding n_def by (simp only: floor_less_iff)
  then have n1: "n \<le> 1000" by simp
  have sg: "sgn a * of_int n / 10 = of_int n / 10"
  proof (cases "a = 0")
    case True
    then have "n = 0" by (simp add: n_def floor_eq_iff)
    then show ?thesis by simp
  next
    case False
    with assms have "sgn a = 1" by simp
    then show ?thesis by simp
  qed
  have "(of_int 0 :: rat) \<le> of_int n" "(of_int n :: rat) \<le> of_int 1000"
    using n0 n1 by (simp_all only: of_int_le_iff)
  then have "\<bar>of_int n / 10 :: rat\<bar> \<le> 4096" by simp
  then have "fl (of_int n / 10) = Fin (flr (of_int n / 10))" by (rule fl_Fin)
  moreover have "\<bar>a\<bar> < 10 ^ 21" using assms a by simp
  moreover have "toFixed1 (Fin a) = (if \<bar>a\<bar> < 10 ^ 21 then fl (sgn a * of_int n / 10) else Fin a)"
    unfolding n_def by (rule toFixed1.simps)
  ultimately have "toFixed1 (Fin a) = Fin (flr (of_int n / 10))"
    by (simp only: sg if_True)
  with n0 n1 show ?thesis by blast
qed

subsection \<open>Hue, lightness and saturation of three channels\<close>

lemma hexToHSL_str_channels:
  "hexToHSL_str cs =
     (let hex = stripHash cs;
          r = js_div (parseInt16 (substring hex 0 2)) (Fin 255);
          g = js_div (parseInt16 (substring hex 2 4)) (Fin 255);
          b = js_div (parseInt16 (substring hex 4 6)) (Fin 255)
      in \<lparr>hsl_h = hueOfChannels r g b, hsl_s = saturationOfChannels r g b,
          hsl_l = lightnessOfChannels r g b\<rparr>)"
  by (simp add: hexToHSL_str_def hueOfChannels_def saturationOfChannels_def
      lightnessOfChannels_def Let_def)

lemma ratio_range:
  fixes x y lo hi :: rat
  assumes "lo \<le> x" "x \<le> hi" "lo \<le> y" "y \<le> hi" "0 \<le> lo" "hi \<le> 1" "flr (hi - lo) \<noteq> 0"
  shows "\<exists>q. - 1 \<le> q \<and> q \<le> 1 \<and>
           js_div (js_sub (Fin x) (Fin y)) (Fin (flr (hi - lo))) = Fin q"
proof -
  define dl where "dl = flr (hi - lo)"
  define d where "d = flr (x - y)"
  have "0 \<le> hi - lo" using assms by simp
  then have "0 \<le> dl" unfolding dl_def by (rule flr_nonneg)
  with assms(7) have dpos: "0 < dl" by (simp add: dl_def)
  have "x - y \<le> hi - lo" using assms by simp
  then have up: "d \<le> dl" unfolding d_def dl_def by (rule flr_mono)
  have "- (hi - lo) \<le> x - y" using assms by simp
  then have "flr (- (hi - lo)) \<le> flr (x - y)" by (rule flr_mono)
  then have lo: "- dl \<le> d" unfolding d_def dl_def by (simp only: flr_minus)
  have "\<bar>x - y\<bar> \<le> 4096" using assms by (simp add: abs_le_iff)
  then have s: "js_sub (Fin x) (Fin y) = Fin d" unfolding d_def by (rule js_sub_Fin)
  have r1: "of_int (- 1) \<le> d / dl" using lo dpos by (simp add: pos_le_divide_eq)
  have r2: "d / dl \<le> of_int 1" using up dpos by (simp add: pos_divide_le_eq)
  note fb = flr_between [OF r1 r2]
  have "js_div (Fin d) (Fin dl) = Fin (flr (d / dl))"
    using dpos fb(3) by (intro js_div_Fin) simp_all
  with s fb(1,2) show ?thesis unfolding dl_def by auto
qed

lemma js_mod_small:
  assumes "- 1 \<le> q" "q \<le> 1"
  shows "js_mod (Fin q) (Fin 6) = Fin q"
proof -
  have "0 \<le> \<bar>q / 6\<bar>" "\<bar>q / 6\<bar> < 1" using assms by (simp_all add: abs_less_iff)
  then have "\<lfloor>\<bar>q / 6\<bar>\<rfloor> = 0" by (simp add: floor_eq_iff)
  then show ?thesis by simp
qed

lemma js_add_small:
  assumes "- 1 \<le> q" "q \<le> 1" "\<bar>k\<bar> \<le> 10"
  shows "\<exists>q'. of_int (k - 1) \<le> q' \<and> q' \<le> of_int (k + 1) \<and>
           js_add (Fin q) (Fin (of_int k)) = Fin q'"
proof -
  have r1: "of_int (k - 1) \<le> q + of_int k" and r2: "q + of_int k \<le> of_int (k + 1)"
    using assms by simp_all
  have "\<bar>k - 1\<bar> \<le> 4096" "\<bar>k + 1\<bar> \<le> 4096" using assms by simp_all
  note fb = flr_between [OF r1 r2 this]
  from fb(3) have "js_add (Fin q) (Fin (of_int k)) = Fin (flr (q + of_int k))"
    by (rule js_add_Fin)
  with fb(1,2) show ?thesis by blast
qed

lemma hue_degrees:
  assumes "- 1 \<le> x" "x \<le> 5"
  shows "\<exists>n. 0 \<le> n \<and> n < 360 \<and>
           (let h1 = Math_round (js_mul (Fin x) (Fin 60))
            in if js_lt h1 (Fin 0) then js_add h1 (Fin 360) else h1) = Fin (of_int n)"
proof -
  have r1: "of_int (- 60) \<le> x * 60" and r2: "x * 60 \<le> of_int 300" using assms by simp_all
  note fb = flr_between [OF r1 r2]
  define y where "y = flr (x * 60)"
  define n1 where "n1 = \<lfloor>y + 1 / 2\<rfloor>"
  have y: "- 60 \<le> y" "y \<le> 300" using fb(1,2) by (simp_all add: y_def)
  have m: "js_mul (Fin x) (Fin 60) = Fin y" unfolding y_def using fb(3) by (intro js_mul_Fin) simp
  have h1: "Math_round (js_mul (Fin x) (Fin 60)) = Fin (of_int n1)"
    by (simp only: m n1_def Math_round.simps)
  have "of_int (- 60) \<le> y + 1 / 2" using y by simp
  then have lo: "- 60 \<le> n1" unfolding n1_def by (simp only: le_floor_iff)
  have "y + 1 / 2 < of_int 301" using y by simp
  then have "n1 < 301" unfolding n1_def by (simp only: floor_less_iff)
  then have hi: "n1 \<le> 300" by simp
  show ?thesis
  proof (cases "n1 < 0")
    case True
    have "js_add (Fin (of_int n1)) (Fin 360) = fl (of_int (n1 + 360))" by simp
    also have "\<dots> = Fin (of_int (n1 + 360))" using lo True by (intro fl_of_int) simp
    finally have "js_add (Fin (of_int n1)) (Fin 360) = Fin (of_int (n1 + 360))" .
    moreover have "js_lt (Fin (of_int n1)) (Fin 0)" using True by simp
    ultimately have "(let h1 = Math_round (js_mul (Fin x) (Fin 60))
            in if js_lt h1 (Fin 0) then js_add h1 (Fin 360) else h1) = Fin (of_int (n1 + 360))"
      by (simp only: h1 Let_def if_True)
    moreover have "0 \<le> n1 + 360" "n1 + 360 < 360" using lo True by simp_all
    ultimately show ?thesis by blast
  next
    case False
    then have "\<not> js_lt (Fin (of_int n1)) (Fin 0)" by simp
    then have "(let h1 = Math_round (js_mul (Fin x) (Fin 60))
            in if js_lt h1 (Fin 0) then js_add h1 (Fin 360) else h1) = Fin (of_int n1)"
      by (simp only: h1 Let_def if_False)
    moreover have "0 \<le> n1" "n1 < 360" using hi False by simp_all
    ultimately show ?thesis by blast
  qed
qed

lemma hueOfChannels_range:
  fixes r g b :: rat
  assumes "0 \<le> r" "r \<le> 1" "0 \<le> g" "g \<le> 1" "0 \<le> b" "b \<le> 1"
  shows "\<exists>n. 0 \<le> n \<and> n < 360 \<and> hueOfChannels (Fin r) (Fin g) (Fin b) = Fin (of_int n)"
proof -
  define hi where "hi = max (max r g) b"
  define lo where "lo = min (min r g) b"
  define dl where "dl = flr (hi - lo)"
  have rng: "lo \<le> r" "r \<le> hi" "lo \<le> g" "g \<le> hi" "lo \<le> b" "b \<le> hi" "0 \<le> lo" "hi \<le> 1"
    using assms by (simp_all add: hi_def lo_def)
  have "\<bar>hi - lo\<bar> \<le> 4096" using rng by (simp add: abs_le_iff)
  then have dsub: "js_sub (Fin hi) (Fin lo) = Fin dl" unfolding dl_def by (rule js_sub_Fin)
  define h0 where "h0 = (if js_eq (Fin dl) (Fin 0) then Fin 0
                else if js_eq (Fin hi) (Fin r) then js_mod (js_div (js_sub (Fin g) (Fin b)) (Fin dl)) (Fin 6)
                else if js_eq (Fin hi) (Fin g) then js_add (js_div (js_sub (Fin b) (Fin r)) (Fin dl)) (Fin 2)
                else js_add (js_div (js_sub (Fin r) (Fin g)) (Fin dl)) (Fin 4))"
  have hue: "hueOfChannels (Fin r) (Fin g) (Fin b) =
      (let h1 = Math_round (js_mul h0 (Fin 60))
       in if js_lt h1 (Fin 0) then js_add h1 (Fin 360) else h1)"
    unfolding hueOfChannels_def Math_max3_Fin Math_min3_Fin hi_def [symmetric] lo_def [symmetric]
      Let_def dsub h0_def ..
  have "\<exists>x. - 1 \<le> x \<and> x \<le> 5 \<and> h0 = Fin x"
  proof (cases "dl = 0")
    case True
    then have "h0 = Fin 0" by (simp add: h0_def js_eq_Fin)
    then show ?thesis by auto
  next
    case False
    then have nz: "flr (hi - lo) \<noteq> 0" by (simp add: dl_def)
    from ratio_range [OF rng(3,4,5,6,7,8) nz] obtain q1 where
      q1: "- 1 \<le> q1" "q1 \<le> 1" "js_div (js_sub (Fin g) (Fin b)) (Fin dl) = Fin q1"
      unfolding dl_def by blast
    from ratio_range [OF rng(5,6,1,2,7,8) nz] obtain q2 where
      q2: "- 1 \<le> q2" "q2 \<le> 1" "js_div (js_sub (Fin b) (Fin r)) (Fin dl) = Fin q2"
      unfolding dl_def by blast
    from ratio_range [OF rng(1,2,3,4,7,8) nz] obtain q3 where
      q3: "- 1 \<le> q3" "q3 \<le> 1" "js_div (js_sub (Fin r) (Fin g)) (Fin dl) = Fin q3"
      unfolding dl_def by blast
    from js_add_small [OF q2(1,2), of 2] obtain p2 where
      p2: "1 \<le> p2" "p2 \<le> 3" "js_add (Fin q2) (Fin 2) = Fin p2" by auto
    from js_add_small [OF q3(1,2), of 4] obtain p3 where
      p3: "3 \<le> p3" "p3 \<le> 5" "js_add (Fin q3) (Fin 4) = Fin p3" by auto
    have "h0 = Fin q1 \<or> h0 = Fin p2 \<or> h0 = Fin p3"
      unfolding h0_def js_eq_Fin q1(3) q2(3) q3(3) p2(3) p3(3) js_mod_small [OF q1(1,2)]
      using False by auto
    with q1(1,2) p2(1,2) p3(1,2) show ?thesis by auto
  qed
  then obtain x where x: "- 1 \<le> x" "x \<le> 5" "h0 = Fin x" by blast
  from hue_degrees [OF x(1,2)] show ?thesis unfolding hue x(3) .
qed

lemma chan_range:
  assumes "k \<le> 255"
  shows "0 \<le> chan k" "chan k \<le> 1" "\<bar>chan k - of_nat k / 255\<bar> \<le> 1 / 2 ^ 40"
    "js_div (Fin (of_nat k)) (Fin 255) = Fin (chan k)"
proof -
  have "(of_nat k :: rat) \<le> of_nat 255" using assms by (simp only: of_nat_le_iff)
  then have r: "of_int 0 \<le> (of_nat k :: rat) / 255" "(of_nat k :: rat) / 255 \<le> of_int 1"
    by simp_all
  note fb = flr_between [OF r, simplified]
  show "0 \<le> chan k" "chan k \<le> 1" using fb(1,2) by (simp_all add: chan_def)
  have b: "\<bar>(of_nat k :: rat) / 255\<bar> \<le> 4096" using fb(3) by simp
  show "\<bar>chan k - of_nat k / 255\<bar> \<le> 1 / 2 ^ 40" unfolding chan_def using b by (rule flr_err)
  show "js_div (Fin (of_nat k)) (Fin 255) = Fin (chan k)"
    unfolding chan_def using b by (intro js_div_Fin) simp_all
qed

lemma chan_separated:
  assumes "k \<le> 255" "j \<le> 255" "k \<noteq> j"
  shows "1 / 256 \<le> \<bar>chan k - chan j\<bar>"
proof -
  define eps where "eps = (1::rat) / 2 ^ 40"
  have e: "eps \<le> 1 / 1000000000" by (simp add: eps_def)
  have ek: "\<bar>chan k - of_nat k / 255\<bar> \<le> eps" and ej: "\<bar>chan j - of_nat j / 255\<bar> \<le> eps"
    unfolding eps_def using assms by (intro chan_range(3); simp)+
  have "1 \<le> \<bar>int k - int j\<bar>" using assms(3) by simp
  then have "(of_int 1 :: rat) \<le> of_int \<bar>int k - int j\<bar>" by (simp only: of_int_le_iff)
  then have "1 \<le> \<bar>(of_nat k :: rat) - of_nat j\<bar>" by simp
  moreover define A B where "A = (of_nat k :: rat) / 255" and "B = (of_nat j :: rat) / 255"
  moreover have "(of_nat k :: rat) = 255 * A" "(of_nat j :: rat) = 255 * B"
    by (simp_all add: A_def B_def)
  ultimately have "1 / 255 \<le> \<bar>A - B\<bar>"
    by linarith
  then have "1 / 255 \<le> \<bar>(of_nat k :: rat) / 255 - of_nat j / 255\<bar>"
    by (simp only: A_def B_def)
  with ek ej e show ?thesis by linarith
qed

lemma lightnessOfChannels_range:
  fixes r g b :: rat
  assumes "0 \<le> r" "r \<le> 1" "0 \<le> g" "g \<le> 1" "0 \<le> b" "b \<le> 1"
  shows "\<exists>n. 0 \<le> n \<and> n \<le> 1000 \<and>
           lightnessOfChannels (Fin r) (Fin g) (Fin b) = Fin (flr (of_int n / 10))"
proof -
  define hi where "hi = max (max r g) b"
  define lo where "lo = min (min r g) b"
  have rng: "0 \<le> lo" "lo \<le> hi" "hi \<le> 1"
    using assms by (simp_all add: hi_def lo_def)
  define S where "S = flr (hi + lo)"
  define l0 where "l0 = flr (S / 2)"
  define a where "a = flr (l0 * 100)"
  have r1: "of_int 0 \<le> hi + lo" "hi + lo \<le> of_int 2" using rng by simp_all
  note f1 = flr_between [OF r1, simplified]
  have jS: "js_add (Fin hi) (Fin lo) = Fin S" unfolding S_def using f1(3) by (rule js_add_Fin)
  have r2: "of_int 0 \<le> S / 2" "S / 2 \<le> of_int 1" using f1(1,2) by (simp_all add: S_def)
  note f2 = flr_between [OF r2, simplified]
  have jl: "js_div (Fin S) (Fin 2) = Fin l0" unfolding l0_def using f2(3) by (intro js_div_Fin) simp_all
  have r3: "of_int 0 \<le> l0 * 100" "l0 * 100 \<le> of_int 100" using f2(1,2) by (simp_all add: l0_def)
  note f3 = flr_between [OF r3, simplified]
  have ja: "js_mul (Fin l0) (Fin 100) = Fin a" unfolding a_def using f3(3) by (intro js_mul_Fin) simp
  have l: "lightnessOfChannels (Fin r) (Fin g) (Fin b) = toFixed1 (Fin a)"
    unfolding lightnessOfChannels_def Math_max3_Fin Math_min3_Fin hi_def [symmetric] lo_def [symmetric]
      Let_def jS jl ja ..
  have "0 \<le> a" "a \<le> 100 + 1 / 25" using f3(1,2) by (simp_all add: a_def)
  from toFixed1_range [OF this] show ?thesis unfolding l .
qed

lemma saturationOfChannels_range:
  assumes k: "kr \<le> 255" "kg \<le> 255" "kb \<le> 255"
  shows "\<exists>n. 0 \<le> n \<and> n \<le> 1000 \<and>
           saturationOfChannels (Fin (chan kr)) (Fin (chan kg)) (Fin (chan kb))
             = Fin (flr (of_int n / 10))"
proof -
  define r where "r = chan kr"
  define g where "g = chan kg"
  define b where "b = chan kb"
  define hi where "hi = max (max r g) b"
  define lo where "lo = min (min r g) b"
  define dl where "dl = flr (hi - lo)"
  define eps where "eps = (1::rat) / 2 ^ 40"
  have e: "0 < eps" "eps \<le> 1 / 1000000000" by (simp_all add: eps_def)
  have c01: "0 \<le> r" "r \<le> 1" "0 \<le> g" "g \<le> 1" "0 \<le> b" "b \<le> 1"
    unfolding r_def g_def b_def using k by (simp_all add: chan_range)
  have rng: "0 \<le> lo" "lo \<le> hi" "hi \<le> 1"
    using c01 by (simp_all add: hi_def lo_def)
  obtain kh where kh: "kh \<le> 255" "hi = chan kh"
    using k by (cases "r \<le> g"; cases "g \<le> b"; cases "r \<le> b")
      (auto simp: hi_def max_def r_def g_def b_def)
  obtain kl where kl: "kl \<le> 255" "lo = chan kl"
    using k by (cases "r \<le> g"; cases "g \<le> b"; cases "r \<le> b")
      (auto simp: lo_def min_def r_def g_def b_def)
  have "\<bar>hi - lo\<bar> \<le> 4096" using rng by (simp add: abs_le_iff)
  then have dsub: "js_sub (Fin hi) (Fin lo) = Fin dl" unfolding dl_def by (rule js_sub_Fin)
  have ed: "\<bar>dl - (hi - lo)\<bar> \<le> eps"
    unfolding dl_def eps_def using \<open>\<bar>hi - lo\<bar> \<le> 4096\<close> by (rule flr_err)
  have d0: "0 \<le> dl" unfolding dl_def using rng by (intro flr_nonneg) simp
  define S where "S = flr (hi + lo)"
  define l0 where "l0 = flr (S / 2)"
  define t2 where "t2 = flr (2 * l0)"
  define t where "t = flr (t2 - 1)"
  define u where "u = flr (1 - \<bar>t\<bar>)"
  define s0 where "s0 = (if js_eq (Fin dl) (Fin 0) then Fin 0 else js_div (Fin dl) (Fin u))"
  have b1: "\<bar>hi + lo\<bar> \<le> 4096" using rng by (simp add: abs_le_iff)
  have jS: "js_add (Fin hi) (Fin lo) = Fin S" unfolding S_def using b1 by (rule js_add_Fin)
  have eS: "\<bar>S - (hi + lo)\<bar> \<le> eps" unfolding S_def eps_def using b1 by (rule flr_err)
  have b2: "\<bar>S / 2\<bar> \<le> 4096" using eS rng e by linarith
  have jl: "js_div (Fin S) (Fin 2) = Fin l0" unfolding l0_def using b2 by (intro js_div_Fin) simp_all
  have el: "\<bar>l0 - S / 2\<bar> \<le> eps" unfolding l0_def eps_def using b2 by (rule flr_err)
  have b3: "\<bar>2 * l0\<bar> \<le> 4096" using el eS rng e by linarith
  have jt2: "js_mul (Fin 2) (Fin l0) = Fin t2" unfolding t2_def using b3 by (rule js_mul_Fin)
  have et2: "\<bar>t2 - 2 * l0\<bar> \<le> eps" unfolding t2_def eps_def using b3 by (rule flr_err)
  have b4: "\<bar>t2 - 1\<bar> \<le> 4096" using et2 el eS rng e by linarith
  have jt: "js_sub (Fin t2) (Fin 1) = Fin t" unfolding t_def using b4 by (rule js_sub_Fin)
  have et: "\<bar>t - (t2 - 1)\<bar> \<le> eps" unfolding t_def eps_def using b4 by (rule flr_err)
  have tb: "\<bar>t - (hi + lo - 1)\<bar> \<le> 5 * eps" using et et2 el eS by linarith
  have b5: "\<bar>1 - \<bar>t\<bar>\<bar> \<le> 4096" using tb rng e by linarith
  have ju: "js_sub (Fin 1) (Fin \<bar>t\<bar>) = Fin u" unfolding u_def using b5 by (rule js_sub_Fin)
  have eu: "\<bar>u - (1 - \<bar>t\<bar>)\<bar> \<le> eps" unfolding u_def eps_def using b5 by (rule flr_err)
  have sat: "saturationOfChannels (Fin (chan kr)) (Fin (chan kg)) (Fin (chan kb))
      = toFixed1 (js_mul s0 (Fin 100))"
    unfolding saturationOfChannels_def r_def [symmetric] g_def [symmetric] b_def [symmetric]
      Math_max3_Fin Math_min3_Fin hi_def [symmetric] lo_def [symmetric]
      Let_def dsub jS jl jt2 jt js_abs.simps ju s0_def ..
  have "\<exists>a. 0 \<le> a \<and> a \<le> 100 + 1 / 25 \<and> js_mul s0 (Fin 100) = Fin a"
  proof (cases "dl = 0")
    case True
    then have "s0 = Fin 0" by (simp add: s0_def js_eq_Fin)
    then have "js_mul s0 (Fin 100) = Fin 0" by (simp add: fl_0)
    then show ?thesis by simp
  next
    case False
    then have s0: "s0 = js_div (Fin dl) (Fin u)" by (simp add: s0_def js_eq_Fin)
    have "kh \<noteq> kl"
    proof
      assume "kh = kl"
      then have "hi - lo = 0" by (simp add: kh kl)
      then have "dl = 0" by (simp add: dl_def flr_0)
      with False show False ..
    qed
    from chan_separated [OF kh(1) kl(1) this] have "1 / 256 \<le> \<bar>hi - lo\<bar>"
      by (simp add: kh kl)
    with rng have D: "1 / 256 \<le> hi - lo" by simp
    have ub: "hi - lo - 6 * eps \<le> u" using eu tb rng by linarith
    then have u512: "1 / 512 \<le> u" using D e by linarith
    then have upos: "0 < u" by simp
    have du: "dl \<le> u + 7 * eps" using ed ub by linarith
    have "3584 * eps * (1 / 512) \<le> 3584 * eps * u"
      using u512 e(1) by (intro mult_left_mono) simp_all
    then have "7 * eps \<le> 3584 * eps * u" by simp
    with du have "dl \<le> (1 + 3584 * eps) * u" by (simp add: algebra_simps)
    then have q1: "dl / u \<le> 1 + 3584 * eps" using upos by (simp add: pos_divide_le_eq)
    have q0: "0 \<le> dl / u" using d0 upos by simp
    have b6: "\<bar>dl / u\<bar> \<le> 4096" using q0 q1 e by linarith
    define q where "q = flr (dl / u)"
    have jq: "js_div (Fin dl) (Fin u) = Fin q" unfolding q_def using upos b6 by (intro js_div_Fin) simp_all
    have eq: "\<bar>q - dl / u\<bar> \<le> eps" unfolding q_def eps_def using b6 by (rule flr_err)
    have qn: "0 \<le> q" unfolding q_def using q0 by (rule flr_nonneg)
    have b7: "\<bar>q * 100\<bar> \<le> 4096" using qn eq q1 e by linarith
    define a where "a = flr (q * 100)"
    have ja: "js_mul (Fin q) (Fin 100) = Fin a" unfolding a_def using b7 by (rule js_mul_Fin)
    have ea: "\<bar>a - q * 100\<bar> \<le> eps" unfolding a_def eps_def using b7 by (rule flr_err)
    have an: "0 \<le> a" unfolding a_def using qn by (intro flr_nonneg) simp
    have "a \<le> 100 + 1 / 25" using ea eq q1 e by linarith
    with an ja show ?thesis unfolding s0 jq by blast
  qed
  then obtain a where a: "0 \<le> a" "a \<le> 100 + 1 / 25" "js_mul s0 (Fin 100) = Fin a" by blast
  from toFixed1_range [OF a(1,2)] show ?thesis unfolding sat a(3) .
qed

subsection \<open>Valid colors\<close>

lemma hexDigit_Some:
  assumes "hexDigit c = Some d"
  shows "d \<le> 15" "\<not> isWhiteSpace c" "c \<noteq> 45" "c \<noteq> 43" "c \<noteq> 120" "c \<noteq> 88" "c \<noteq> 35"
  using assms by (auto simp: hexDigit_def isWhiteSpace_def split: if_splits)

lemma parseInt16_pair:
  assumes "hexDigit a = Some x" "hexDigit b = Some y"
  shows "parseInt16 [a, b] = Fin (of_nat (16 * x + y))" "16 * x + y \<le> 255"
proof -
  note A = hexDigit_Some [OF assms(1)] and B = hexDigit_Some [OF assms(2)]
  show le: "16 * x + y \<le> 255" using A(1) B(1) by simp
  have "fl (of_int (int (16 * x + y))) = Fin (of_int (int (16 * x + y)))"
    using le by (intro fl_of_int) simp
  then have "fl (of_nat (16 * x + y)) = Fin (of_nat (16 * x + y))" by simp
  then show "parseInt16 [a, b] = Fin (of_nat (16 * x + y))"
    using A B assms by (simp add: parseInt16_def)
qed

lemma isHex6_D:
  assumes "isHex6 cs"
  obtains a1 a2 b1 b2 c1 c2 x1 x2 y1 y2 z1 z2 where
    "cs = [a1, a2, b1, b2, c1, c2]"
    "hexDigit a1 = Some x1" "hexDigit a2 = Some x2"
    "hexDigit b1 = Some y1" "hexDigit b2 = Some y2"
    "hexDigit c1 = Some z1" "hexDigit c2 = Some z2"
proof -
  from assms have "length cs = 6" by (simp add: isHex6_def)
  then obtain a1 a2 b1 b2 c1 c2 where cs: "cs = [a1, a2, b1, b2, c1, c2]"
    by (auto simp: eval_nat_numeral length_Suc_conv)
  with assms have "hexDigit a1 \<noteq> None" "hexDigit a2 \<noteq> None" "hexDigit b1 \<noteq> None"
    "hexDigit b2 \<noteq> None" "hexDigit c1 \<noteq> None" "hexDigit c2 \<noteq> None"
    by (simp_all add: isHex6_def)
  with cs that show thesis by blast
qed

lemma stripHash_hex6:
  assumes "isHex6 cs"
  shows "stripHash cs = cs" "stripHash (35 # cs) = cs"
proof -
  from assms obtain a1 a2 b1 b2 c1 c2 x1 where "cs = [a1, a2, b1, b2, c1, c2]" "hexDigit a1 = Some x1"
    by (rule isHex6_D)
  with hexDigit_Some(7) [of a1 x1] show "stripHash cs = cs" by (simp add: stripHash_def)
  show "stripHash (35 # cs) = cs" by (simp add: stripHash_def)
qed

lemma hexColor_channels:
  assumes "isHexColor cs"
  obtains kr kg kb where "kr \<le> 255" "kg \<le> 255" "kb \<le> 255"
    "parseInt16 (substring (stripHash cs) 0 2) = Fin (of_nat kr)"
    "parseInt16 (substring (stripHash cs) 2 4) = Fin (of_nat kg)"
    "parseInt16 (substring (stripHash cs) 4 6) = Fin (of_nat kb)"
proof -
  from assms have "isHex6 (stripHash cs)" by (simp add: isHexColor_def)
  then obtain a1 a2 b1 b2 c1 c2 x1 x2 y1 y2 z1 z2 where
    cs: "stripHash cs = [a1, a2, b1, b2, c1, c2]"
    and d: "hexDigit a1 = Some x1" "hexDigit a2 = Some x2"
    "hexDigit b1 = Some y1" "hexDigit b2 = Some y2"
    "hexDigit c1 = Some z1" "hexDigit c2 = Some z2"
    by (rule isHex6_D)
  have s: "substring (stripHash cs) 0 2 = [a1, a2]" "substring (stripHash cs) 2 4 = [b1, b2]"
    "substring (stripHash cs) 4 6 = [c1, c2]"
    by (simp_all add: cs substring_def)
  show thesis
    using that [of "16 * x1 + x2" "16 * y1 + y2" "16 * z1 + z2"]
      parseInt16_pair [OF d(1,2)] parseInt16_pair [OF d(3,4)] parseInt16_pair [OF d(5,6)]
    by (simp only: s)
qed

lemma hexToHSL_str_chan:
  assumes "parseInt16 (substring (stripHash cs) 0 2) = Fin (of_nat kr)"
    "parseInt16 (substring (stripHash cs) 2 4) = Fin (of_nat kg)"
    "parseInt16 (substring (stripHash cs) 4 6) = Fin (of_nat kb)"
    "kr \<le> 255" "kg \<le> 255" "kb \<le> 255"
  shows "hexToHSL_str cs =
    \<lparr>hsl_h = hueOfChannels (Fin (chan kr)) (Fin (chan kg)) (Fin (chan kb)),
     hsl_s = saturationOfChannels (Fin (chan kr)) (Fin (chan kg)) (Fin (chan kb)),
     hsl_l = lightnessOfChannels (Fin (chan kr)) (Fin (chan kg)) (Fin (chan kb))\<rparr>"
  unfolding hexToHSL_str_channels Let_def assms(1-3)
    chan_range(4) [OF assms(4)] chan_range(4) [OF assms(5)] chan_range(4) [OF assms(6)] ..

lemma hexToHSL_str_range:
  assumes "isHexColor cs"
  shows "\<exists>hn sn ln. 0 \<le> hn \<and> hn < 360 \<and> 0 \<le> sn \<and> sn \<le> 1000 \<and> 0 \<le> ln \<and> ln \<le> 1000 \<and>
           hexToHSL_str cs = \<lparr>hsl_h = Fin (of_int hn), hsl_s = Fin (flr (of_int sn / 10)),
                               hsl_l = Fin (flr (of_int ln / 10))\<rparr>"
proof -
  from assms obtain kr kg kb where k: "kr \<le> 255" "kg \<le> 255" "kb \<le> 255"
    and p: "parseInt16 (substring (stripHash cs) 0 2) = Fin (of_nat kr)"
    "parseInt16 (substring (stripHash cs) 2 4) = Fin (of_nat kg)"
    "parseInt16 (substring (stripHash cs) 4 6) = Fin (of_nat kb)"
    by (rule hexColor_channels)
  note c = chan_range(1,2) [OF k(1)] chan_range(1,2) [OF k(2)] chan_range(1,2) [OF k(3)]
  from hueOfChannels_range [OF c] obtain hn where
    h: "0 \<le> hn" "hn < 360" "hueOfChannels (Fin (chan kr)) (Fin (chan kg)) (Fin (chan kb)) = Fin (of_int hn)"
    by blast
  from saturationOfChannels_range [OF k] obtain sn where
    s: "0 \<le> sn" "sn \<le> 1000"
    "saturationOfChannels (Fin (chan kr)) (Fin (chan kg)) (Fin (chan kb)) = Fin (flr (of_int sn / 10))"
    by blast
  from lightnessOfChannels_range [OF c] obtain ln where
    l: "0 \<le> ln" "ln \<le> 1000"
    "lightnessOfChannels (Fin (chan kr)) (Fin (chan kg)) (Fin (chan kb)) = Fin (flr (of_int ln / 10))"
    by blast
  have "hexToHSL_str cs = \<lparr>hsl_h = Fin (of_int hn), hsl_s = Fin (flr (of_int sn / 10)),
                               hsl_l = Fin (flr (of_int ln / 10))\<rparr>"
    unfolding hexToHSL_str_chan [OF p k] h(3) s(3) l(3) ..
  with h(1,2) s(1,2) l(1,2) show ?thesis by blast
qed

subsection \<open>Unparsed channels, letter case and grey\<close>

lemma js_add_NaN_right: "js_add x NaN = NaN"
  by (cases x) simp_all

lemma js_sub_NaN: "js_sub NaN x = NaN" "js_sub x NaN = NaN"
  by (simp_all add: js_sub_def js_add_NaN_right)

lemma js_mul_NaN_right: "js_mul x NaN = NaN"
  by (cases x) simp_all

lemma js_div_NaN_right: "js_div x NaN = NaN"
  by (cases x) simp_all

lemma Math_minmax_NaN:
  assumes "r = NaN \<or> g = NaN \<or> b = NaN"
  shows "Math_min3 r g b = NaN" "Math_max3 r g b = NaN"
  using assms by (auto simp: Math_min3_def Math_max3_def Math_min2_def Math_max2_def)

lemma channels_NaN:
  assumes "r = NaN \<or> g = NaN \<or> b = NaN"
  shows "hueOfChannels r g b = NaN" "saturationOfChannels r g b = NaN"
    "lightnessOfChannels r g b = NaN"
  by (simp_all add: hueOfChannels_def saturationOfChannels_def lightnessOfChannels_def
      Math_minmax_NaN [OF assms] js_sub_NaN js_eq_def js_div_NaN_right js_add_NaN_right Let_def)

lemma hexToHSL_str_NaN:
  assumes "parseInt16 (substring (stripHash cs) 0 2) = NaN
         \<or> parseInt16 (substring (stripHash cs) 2 4) = NaN
         \<or> parseInt16 (substring (stripHash cs) 4 6) = NaN"
  shows "hexToHSL_str cs = \<lparr>hsl_h = NaN, hsl_s = NaN, hsl_l = NaN\<rparr>"
proof -
  define r where "r = js_div (parseInt16 (substring (stripHash cs) 0 2)) (Fin 255)"
  define g where "g = js_div (parseInt16 (substring (stripHash cs) 2 4)) (Fin 255)"
  define b where "b = js_div (parseInt16 (substring (stripHash cs) 4 6)) (Fin 255)"
  from assms have "r = NaN \<or> g = NaN \<or> b = NaN" by (auto simp: r_def g_def b_def)
  from channels_NaN [OF this] show ?thesis
    unfolding hexToHSL_str_channels Let_def r_def [symmetric] g_def [symmetric] b_def [symmetric]
    by simp
qed

lemma hslToHex_NaN: "hslToHex NaN NaN NaN = js ''#NaNNaNNaN''"
  by code_simp

lemma complementary_NaN:
  assumes "c = \<lparr>hsl_h = NaN, hsl_s = NaN, hsl_l = NaN\<rparr>"
  shows "newHue c = NaN" "newSaturation c = NaN" "newLightness c = NaN"
  by (simp_all add: assms newHue_def newSaturation_def newLightness_def Math_min2_def
      Math_max2_def js_sub_NaN)

lemma hexDigit_asciiLower:
  assumes "hexDigit c = Some d"
  shows "hexDigit (asciiLower c) = Some d"
  using assms by (auto simp: hexDigit_def asciiLower_def split: if_splits)

lemma hexDigit_same_lower:
  assumes "hexDigit c = Some d" "hexDigit c' = Some d'" "asciiLower c = asciiLower c'"
  shows "d = d'"
  using hexDigit_asciiLower [OF assms(1)] hexDigit_asciiLower [OF assms(2)] assms(3) by simp

lemma parse_hex6_same_lower:
  assumes "isHex6 ds" "isHex6 ds'" "map asciiLower ds = map asciiLower ds'"
  shows "parseInt16 (substring ds 0 2) = parseInt16 (substring ds' 0 2)"
    "parseInt16 (substring ds 2 4) = parseInt16 (substring ds' 2 4)"
    "parseInt16 (substring ds 4 6) = parseInt16 (substring ds' 4 6)"
proof -
  from assms(1) obtain a1 a2 b1 b2 c1 c2 x1 x2 y1 y2 z1 z2 where
    ds: "ds = [a1, a2, b1, b2, c1, c2]"
    and d: "hexDigit a1 = Some x1" "hexDigit a2 = Some x2"
    "hexDigit b1 = Some y1" "hexDigit b2 = Some y2"
    "hexDigit c1 = Some z1" "hexDigit c2 = Some z2"
    by (rule isHex6_D)
  from assms(2) obtain a1' a2' b1' b2' c1' c2' x1' x2' y1' y2' z1' z2' where
    ds': "ds' = [a1', a2', b1', b2', c1', c2']"
    and d': "hexDigit a1' = Some x1'" "hexDigit a2' = Some x2'"
    "hexDigit b1' = Some y1'" "hexDigit b2' = Some y2'"
    "hexDigit c1' = Some z1'" "hexDigit c2' = Some z2'"
    by (rule isHex6_D)
  from assms(3) have l: "asciiLower a1 = asciiLower a1'" "asciiLower a2 = asciiLower a2'"
    "asciiLower b1 = asciiLower b1'" "asciiLower b2 = asciiLower b2'"
    "asciiLower c1 = asciiLower c1'" "asciiLower c2 = asciiLower c2'"
    by (simp_all add: ds ds')
  have e: "x1 = x1'" "x2 = x2'" "y1 = y1'" "y2 = y2'" "z1 = z1'" "z2 = z2'"
    using hexDigit_same_lower [OF d(1) d'(1) l(1)] hexDigit_same_lower [OF d(2) d'(2) l(2)]
      hexDigit_same_lower [OF d(3) d'(3) l(3)] hexDigit_same_lower [OF d(4) d'(4) l(4)]
      hexDigit_same_lower [OF d(5) d'(5) l(5)] hexDigit_same_lower [OF d(6) d'(6) l(6)]
    by simp_all
  show "parseInt16 (substring ds 0 2) = parseInt16 (substring ds' 0 2)"
    using parseInt16_pair(1) [OF d(1,2)] parseInt16_pair(1) [OF d'(1,2)]
    by (simp add: ds ds' substring_def e)
  show "parseInt16 (substring ds 2 4) = parseInt16 (substring ds' 2 4)"
    using parseInt16_pair(1) [OF d(3,4)] parseInt16_pair(1) [OF d'(3,4)]
    by (simp add: ds ds' substring_def e)
  show "parseInt16 (substring ds 4 6) = parseInt16 (substring ds' 4 6)"
    using parseInt16_pair(1) [OF d(5,6)] parseInt16_pair(1) [OF d'(5,6)]
    by (simp add: ds ds' substring_def e)
qed

lemma stripHash_prefix:
  assumes "isHex6 ds" "p = [] \<or> p = [35]"
  shows "stripHash (p @ ds) = ds"
  using assms stripHash_hex6 [OF assms(1)] by auto

lemma achromatic_channels:
  "hueOfChannels (Fin x) (Fin x) (Fin x) = Fin 0"
  "saturationOfChannels (Fin x) (Fin x) (Fin x) = Fin 0"
proof -
  have d: "js_sub (Fin x) (Fin x) = Fin 0" by (simp add: js_sub_def fl_0)
  have z: "js_mul (Fin 0) (Fin 60) = Fin 0" "js_mul (Fin 0) (Fin 100) = Fin 0"
    by (simp_all add: fl_0)
  have r: "Math_round (Fin 0) = Fin 0" by (simp add: floor_eq_iff)
  have t: "toFixed1 (Fin 0) = Fin 0" by (simp add: fl_0)
  show "hueOfChannels (Fin x) (Fin x) (Fin x) = Fin 0"
    unfolding hueOfChannels_def Math_max3_Fin Math_min3_Fin Let_def
    by (simp add: d js_eq_Fin fl_0 floor_eq_iff)
  show "saturationOfChannels (Fin x) (Fin x) (Fin x) = Fin 0"
    unfolding saturationOfChannels_def Math_max3_Fin Math_min3_Fin Let_def
    by (simp add: d js_eq_Fin fl_0)
qed


subsection \<open>The adjustment of the complementary color\<close>

lemma percent_range:
  assumes "0 \<le> n" "n \<le> 1000"
  shows "0 \<le> flr (of_int n / 10)" "flr (of_int n / 10) \<le> 100"
proof -
  have "(of_int 0 :: rat) \<le> of_int n" "(of_int n :: rat) \<le> of_int 1000"
    using assms by (simp_all only: of_int_le_iff)
  then have r: "of_int 0 \<le> (of_int n :: rat) / 10" "(of_int n :: rat) / 10 \<le> of_int 100"
    by simp_all
  note fb = flr_between [OF r, simplified]
  show "0 \<le> flr (of_int n / 10)" "flr (of_int n / 10) \<le> 100" using fb(1,2) by simp_all
qed

lemma newSaturation_range:
  "\<exists>sv. newSaturation \<lparr>hsl_h = h, hsl_s = Fin s, hsl_l = l\<rparr> = Fin sv \<and> 60 \<le> sv \<and> sv \<le> 90"
  by (simp add: newSaturation_def Math_min2_Fin Math_max2_Fin)

lemma newLightness_range:
  assumes "0 \<le> l" "l \<le> 100"
  shows "\<exists>lv. newLightness \<lparr>hsl_h = h, hsl_s = s, hsl_l = Fin l\<rparr> = Fin lv \<and> 30 \<le> lv \<and> lv \<le> 80"
proof (cases "l < 50")
  case True
  have r: "of_int 30 \<le> l + 30" "l + 30 \<le> of_int 80" using assms True by simp_all
  note fb = flr_between [OF r, simplified]
  have "js_add (Fin l) (Fin 30) = Fin (flr (l + 30))" using fb(3) by (rule js_add_Fin)
  then have "newLightness \<lparr>hsl_h = h, hsl_s = s, hsl_l = Fin l\<rparr> = Fin (min (flr (l + 30)) 80)"
    using True by (simp add: newLightness_def Math_min2_Fin del: js_add.simps)
  with fb(1,2) show ?thesis by simp
next
  case False
  have r: "of_int 20 \<le> l - 30" "l - 30 \<le> of_int 70" using assms False by simp_all
  note fb = flr_between [OF r, simplified]
  have "js_sub (Fin l) (Fin 30) = Fin (flr (l - 30))" using fb(3) by (rule js_sub_Fin)
  then have "newLightness \<lparr>hsl_h = h, hsl_s = s, hsl_l = Fin l\<rparr> = Fin (max (flr (l - 30)) 30)"
    using False by (simp add: newLightness_def Math_max2_Fin)
  with fb(1,2) show ?thesis by simp
qed


subsection \<open>The round trip through hslToHex\<close>























subsection \<open>Evaluations\<close>

lemma eval_282c34: "calculateComplementaryColor (Str (js ''#282c34'')) = Inr (js ''#c49331'')"
  by code_simp

lemma eval_zzz: "hexToHSL_str (js ''#zzz'') = \<lparr>hsl_h = NaN, hsl_s = NaN, hsl_l = NaN\<rparr>"
  "calculateComplementaryColor (Str (js ''#zzz'')) = Inr (js ''#NaNNaNNaN'')"
  "hexToHSL_str (js ''#1234'') = \<lparr>hsl_h = NaN, hsl_s = NaN, hsl_l = NaN\<rparr>"
  "calculateComplementaryColor (Str (js ''#1234'')) = Inr (js ''#NaNNaNNaN'')"
  by code_simp+

lemma eval_not_hex: "\<not> isHexColor (js ''#zzz'')" "\<not> isHexColor (js ''#1234'')"
  by code_simp+

lemma eval_unparsed: "unparsedChannel (js ''#1234'')" "unparsedChannel (js ''#zzz'')"
  by code_simp+

lemma eval_ff0000:
  "hexToHSL_str (js ''#ff0000'') = \<lparr>hsl_h = Fin 0, hsl_s = Fin 100, hsl_l = Fin 50\<rparr>"
  by code_simp

lemma eval_ff0000_l: "newLightness \<lparr>hsl_h = Fin 0, hsl_s = Fin 100, hsl_l = Fin 50\<rparr> = Fin 30"
  by code_simp

lemma eval_ff0000_c: "calculateComplementaryColor (Str (js ''#ff0000'')) = Inr (js ''#089191'')"
  by code_simp

lemma eval_089191:
  "hexToHSL_str (js ''#089191'') = \<lparr>hsl_h = Fin 180, hsl_s = Fin (179 / 2), hsl_l = Fin 30\<rparr>"
  by code_simp







lemma eval_hex: "isHexColor (js ''#b8b62e'')" "isHexColor (js ''#282c34'')" "isHexColor (js ''#808080'')"
  "achromatic (js ''#808080'')"
  "isHex6 (js ''ABCDEF'')" "isHex6 (js ''abcdef'')" "map asciiLower (js ''ABCDEF'') = map asciiLower (js ''abcdef'')"
  by code_simp+



section \<open>The properties\<close>

text \<open>
  Claim C1 says that every malformed hex string makes the conversion fail with an
  \<^verbatim>\<open>InvalidColorFormat\<close> error.  The code has no such error: for the malformed
  strings \<^verbatim>\<open>"#zzz"\<close> and \<^verbatim>\<open>"#1234"\<close> of the claim, \<open>hexToHSL\<close> returns the triple of
  three \<open>NaN\<close> and \<open>calculateComplementaryColor\<close> returns the string
  \<^verbatim>\<open>"#NaNNaNNaN"\<close>.
\<close>

theorem malformed_hex_counterexample:
  "\<not> isHexColor (js ''#zzz'')
   \<and> hexToHSL (Str (js ''#zzz'')) = Inr \<lparr>hsl_h = NaN, hsl_s = NaN, hsl_l = NaN\<rparr>
   \<and> calculateComplementaryColor (Str (js ''#zzz'')) = Inr (js ''#NaNNaNNaN'')
   \<and> \<not> isHexColor (js ''#1234'')
   \<and> hexToHSL (Str (js ''#1234'')) = Inr \<lparr>hsl_h = NaN, hsl_s = NaN, hsl_l = NaN\<rparr>
   \<and> calculateComplementaryColor (Str (js ''#1234'')) = Inr (js ''#NaNNaNNaN'')"
  by (simp only: eval_zzz eval_not_hex hexToHSL.simps simp_thms)

text \<open>
  Claim C1, as amended: when one of the three digit pairs of the input does not start with
  a hexadecimal number (so for \<^verbatim>\<open>"#zzz"\<close> and \<^verbatim>\<open>"#1234"\<close>), \<open>hexToHSL\<close> raises nothing
  and returns hue, saturation and lightness all \<open>NaN\<close>, and
  \<open>calculateComplementaryColor\<close> returns \<^verbatim>\<open>"#NaNNaNNaN"\<close> (for the empty string, its
  default \<^verbatim>\<open>"#6495ED"\<close>).
\<close>

theorem unparsed_channel_gives_NaN:
  assumes "unparsedChannel cs"
  shows "hexToHSL (Str cs) = Inr \<lparr>hsl_h = NaN, hsl_s = NaN, hsl_l = NaN\<rparr>
       \<and> calculateComplementaryColor (Str cs)
           = Inr (if cs = [] then js ''#6495ED'' else js ''#NaNNaNNaN'')"
proof -
  from assms have h: "hexToHSL_str cs = \<lparr>hsl_h = NaN, hsl_s = NaN, hsl_l = NaN\<rparr>"
    unfolding unparsedChannel_def by (rule hexToHSL_str_NaN)
  note c = complementary_NaN [OF h]
  have "calculateComplementaryColor (Str cs)
           = Inr (if cs = [] then js ''#6495ED'' else js ''#NaNNaNNaN'')"
    by (simp add: calculateComplementaryColor_def c hslToHex_NaN)
  with h show ?thesis by simp
qed

theorem unparsed_channel_gives_NaN_witness:
  "unparsedChannel (js ''#1234'')
   \<and> hexToHSL (Str (js ''#1234'')) = Inr \<lparr>hsl_h = NaN, hsl_s = NaN, hsl_l = NaN\<rparr>
   \<and> calculateComplementaryColor (Str (js ''#1234'')) = Inr (js ''#NaNNaNNaN'')"
  using unparsed_channel_gives_NaN [OF eval_unparsed(1)] eval_unparsed(1) by simp




text \<open>
  Claim C3 says that with no dominant color supplied the theme is dominant
  \<^verbatim>\<open>"#282c34"\<close>, complementary \<^verbatim>\<open>"#6495ED"\<close>.  In \<^verbatim>\<open>LogoProvider\<close> the state before
  any color has been fetched has dominant \<^verbatim>\<open>"#282c34"\<close> and complementary
  \<^verbatim>\<open>"#ED7D31"\<close>, and the effect then replaces the complementary color by
  \<^verbatim>\<open>calculateComplementaryColor("#282c34") = "#c49331"\<close>: it is never \<^verbatim>\<open>"#6495ED"\<close>.
\<close>

theorem default_theme_counterexample:
  "dominantColor LogoProvider_initial = Str (js ''#282c34'')
   \<and> complementaryColor LogoProvider_initial = js ''#ED7D31''
   \<and> complementaryColor LogoProvider_initial \<noteq> js ''#6495ED''
   \<and> complementaryEffect LogoProvider_initial
       = Inr (LogoProvider_initial\<lparr>complementaryColor := js ''#c49331''\<rparr>)
   \<and> js ''#c49331'' \<noteq> js ''#6495ED''"
  using eval_282c34 by (simp add: LogoProvider_initial_def complementaryEffect_def)

text \<open>
  Claim C3, as amended: \<open>calculateComplementaryColor\<close> returns \<^verbatim>\<open>"#6495ED"\<close> when it is
  given no color (\<^verbatim>\<open>undefined\<close>, \<^verbatim>\<open>null\<close>, the empty string or another falsy value), so
  that a fetched style without dominant color gives the complementary color
  \<^verbatim>\<open>"#6495ED"\<close>; the initial state of \<^verbatim>\<open>LogoProvider\<close> has dominant color
  \<^verbatim>\<open>"#282c34"\<close> and complementary color \<^verbatim>\<open>"#ED7D31"\<close>.
\<close>

theorem default_colors:
  assumes "falsy v"
  shows "calculateComplementaryColor v = Inr (js ''#6495ED'')
       \<and> dominantColor LogoProvider_initial = Str (js ''#282c34'')
       \<and> complementaryColor LogoProvider_initial = js ''#ED7D31''
       \<and> complementaryEffect (fetchHeaderStyle (Some (url, v)) st)
           = Inr (st\<lparr>logoUrl := url, dominantColor := v, complementaryColor := js ''#6495ED''\<rparr>)"
  using assms
  by (simp add: calculateComplementaryColor_def LogoProvider_initial_def complementaryEffect_def
      fetchHeaderStyle_def)

theorem default_colors_witness:
  "falsy Undefined \<and> calculateComplementaryColor Undefined = Inr (js ''#6495ED'')"
  using default_colors [of Undefined] by simp




text \<open>
  Claim C5: for every valid 6-hex-digit color, the adjusted saturation
  \<open>newSaturation\<close> that \<open>calculateComplementaryColor\<close> computes lies in \<open>[60, 90]\<close> and the
  adjusted lightness \<open>newLightness\<close> lies in \<open>[30, 80]\<close>.
\<close>

theorem complementary_adjustment_range:
  assumes "isHexColor cs"
  shows "\<exists>c sv lv. hexToHSL (Str cs) = Inr c
         \<and> newSaturation c = Fin sv \<and> 60 \<le> sv \<and> sv \<le> 90
         \<and> newLightness c = Fin lv \<and> 30 \<le> lv \<and> lv \<le> 80"
proof -
  from hexToHSL_str_range [OF assms] obtain hn sn ln where
    r: "0 \<le> ln" "ln \<le> 1000"
    and h: "hexToHSL_str cs = \<lparr>hsl_h = Fin (of_int hn), hsl_s = Fin (flr (of_int sn / 10)),
                               hsl_l = Fin (flr (of_int ln / 10))\<rparr>"
    by blast
  from newSaturation_range obtain sv where
    s: "newSaturation (hexToHSL_str cs) = Fin sv" "60 \<le> sv" "sv \<le> 90"
    unfolding h by blast
  from newLightness_range [OF percent_range [OF r]] obtain lv where
    l: "newLightness (hexToHSL_str cs) = Fin lv" "30 \<le> lv" "lv \<le> 80"
    unfolding h by blast
  from s l show ?thesis by auto
qed

theorem complementary_adjustment_range_witness:
  "isHexColor (js ''#282c34'')
   \<and> (\<exists>c sv lv. hexToHSL (Str (js ''#282c34'')) = Inr c
         \<and> newSaturation c = Fin sv \<and> 60 \<le> sv \<and> sv \<le> 90
         \<and> newLightness c = Fin lv \<and> 30 \<le> lv \<and> lv \<le> 80)"
  using complementary_adjustment_range [OF eval_hex(2)] eval_hex(2) by blast

text \<open>
  Claim C6: for every valid achromatic color, \<open>r = g = b\<close>, \<open>hexToHSL\<close> returns hue 0
  and saturation 0, not \<open>NaN\<close>.
\<close>

theorem achromatic_hue_saturation:
  assumes "isHexColor cs" "achromatic cs"
  shows "\<exists>c. hexToHSL (Str cs) = Inr c \<and> hsl_h c = Fin 0 \<and> hsl_s c = Fin 0"
proof -
  from assms(1) obtain kr kg kb where k: "kr \<le> 255" "kg \<le> 255" "kb \<le> 255"
    and p: "parseInt16 (substring (stripHash cs) 0 2) = Fin (of_nat kr)"
    "parseInt16 (substring (stripHash cs) 2 4) = Fin (of_nat kg)"
    "parseInt16 (substring (stripHash cs) 4 6) = Fin (of_nat kb)"
    by (rule hexColor_channels)
  from assms(2) have "kr = kg" "kg = kb" by (simp_all add: achromatic_def p)
  then have "hexToHSL_str cs =
    \<lparr>hsl_h = hueOfChannels (Fin (chan kb)) (Fin (chan kb)) (Fin (chan kb)),
     hsl_s = saturationOfChannels (Fin (chan kb)) (Fin (chan kb)) (Fin (chan kb)),
     hsl_l = lightnessOfChannels (Fin (chan kb)) (Fin (chan kb)) (Fin (chan kb))\<rparr>"
    using hexToHSL_str_chan [OF p k] by simp
  then show ?thesis by (simp add: achromatic_channels)
qed

theorem achromatic_hue_saturation_witness:
  "isHexColor (js ''#808080'') \<and> achromatic (js ''#808080'')
   \<and> (\<exists>c. hexToHSL (Str (js ''#808080'')) = Inr c \<and> hsl_h c = Fin 0 \<and> hsl_s c = Fin 0)"
  using achromatic_hue_saturation [OF eval_hex(3,4)] eval_hex(3,4) by blast

text \<open>
  Claim C7: \<^verbatim>\<open>"#ff0000"\<close> has \<open>h = 0\<close>, \<open>s = 100\<close>, \<open>l = 50\<close>; its adjusted lightness is
  30; its complementary color is \<^verbatim>\<open>"#089191"\<close>, which \<open>hexToHSL\<close> reads back as hue 180,
  saturation 89.5 (within \<open>[60, 90]\<close>) and lightness 30.
\<close>

theorem red_complement:
  "hexToHSL (Str (js ''#ff0000'')) = Inr \<lparr>hsl_h = Fin 0, hsl_s = Fin 100, hsl_l = Fin 50\<rparr>
   \<and> newLightness \<lparr>hsl_h = Fin 0, hsl_s = Fin 100, hsl_l = Fin 50\<rparr> = Fin 30
   \<and> calculateComplementaryColor (Str (js ''#ff0000'')) = Inr (js ''#089191'')
   \<and> hexToHSL (Str (js ''#089191''))
       = Inr \<lparr>hsl_h = Fin 180, hsl_s = Fin (179 / 2), hsl_l = Fin 30\<rparr>
   \<and> (60 :: rat) \<le> 179 / 2 \<and> (179 / 2 :: rat) \<le> 90"
  using eval_ff0000 eval_ff0000_l eval_ff0000_c eval_089191 by simp

text \<open>
  Claim C8: two valid 6-hex-digit strings that differ only in the case of their digits,
  each with or without the leading \<^verbatim>\<open>#\<close>, have the same \<open>hexToHSL\<close>.
\<close>

theorem case_and_hash_insensitive:
  assumes "isHex6 ds" "isHex6 ds'" "map asciiLower ds = map asciiLower ds'"
    and "p = [] \<or> p = [35]" "p' = [] \<or> p' = [35]"
  shows "hexToHSL (Str (p @ ds)) = hexToHSL (Str (p' @ ds'))"
proof -
  note s = stripHash_prefix [OF assms(1,4)] stripHash_prefix [OF assms(2,5)]
  note e = parse_hex6_same_lower [OF assms(1-3)]
  have "hexToHSL_str (p @ ds) = hexToHSL_str (p' @ ds')"
    unfolding hexToHSL_str_channels Let_def s e ..
  then show ?thesis by simp
qed

theorem case_and_hash_insensitive_witness:
  "isHex6 (js ''ABCDEF'') \<and> isHex6 (js ''abcdef'')
   \<and> map asciiLower (js ''ABCDEF'') = map asciiLower (js ''abcdef'')
   \<and> hexToHSL (Str (js ''#ABCDEF'')) = hexToHSL (Str (js ''#abcdef''))
   \<and> hexToHSL (Str (js ''#abcdef'')) = hexToHSL (Str (js ''abcdef''))"
  using case_and_hash_insensitive [OF eval_hex(5,6,7), of "[35]" "[35]"]
    case_and_hash_insensitive [OF eval_hex(6,6) refl, of "[35]" "[]"] eval_hex(5,6,7)
  by simp

text \<open>
  Claim C9: for every valid 6-hex-digit color, \<open>hexToHSL\<close> returns an integer hue \<open>hn\<close>
  with \<open>0 \<le> hn < 360\<close>, and saturation and lightness that are the numbers \<open>sn / 10\<close>
  and \<open>ln / 10\<close> of one decimal place between 0 and 100 (as binary64 values:
  \<open>fl (sn / 10)\<close> is what JavaScript reads the decimal \<open>sn / 10\<close> as).
\<close>

theorem hexToHSL_range:
  assumes "isHexColor cs"
  shows "\<exists>hn sn ln. hexToHSL (Str cs)
           = Inr \<lparr>hsl_h = Fin (of_int hn), hsl_s = fl (of_int sn / 10), hsl_l = fl (of_int ln / 10)\<rparr>
         \<and> 0 \<le> hn \<and> hn < 360 \<and> 0 \<le> sn \<and> sn \<le> 1000 \<and> 0 \<le> ln \<and> ln \<le> 1000"
proof -
  from hexToHSL_str_range [OF assms] obtain hn sn ln where
    r: "0 \<le> hn" "hn < 360" "0 \<le> sn" "sn \<le> 1000" "0 \<le> ln" "ln \<le> 1000"
    and h: "hexToHSL_str cs = \<lparr>hsl_h = Fin (of_int hn), hsl_s = Fin (flr (of_int sn / 10)),
                               hsl_l = Fin (flr (of_int ln / 10))\<rparr>"
    by blast
  have "(of_int \<bar>sn\<bar> :: rat) \<le> of_int 1000" "(of_int \<bar>ln\<bar> :: rat) \<le> of_int 1000"
    using r by simp_all
  then have "\<bar>of_int sn / 10 :: rat\<bar> \<le> 4096" "\<bar>of_int ln / 10 :: rat\<bar> \<le> 4096" by simp_all
  then have "fl (of_int sn / 10) = Fin (flr (of_int sn / 10))"
    "fl (of_int ln / 10) = Fin (flr (of_int ln / 10))"
    by (simp_all only: fl_Fin)
  with h r show ?thesis by (intro exI [of _ hn] exI [of _ sn] exI [of _ ln]) simp
qed

theorem hexToHSL_range_witness:
  "isHexColor (js ''#282c34'')
   \<and> (\<exists>hn sn ln. hexToHSL (Str (js ''#282c34''))
           = Inr \<lparr>hsl_h = Fin (of_int hn), hsl_s = fl (of_int sn / 10), hsl_l = fl (of_int ln / 10)\<rparr>
         \<and> 0 \<le> hn \<and> hn < 360 \<and> 0 \<le> sn \<and> sn \<le> 1000 \<and> 0 \<le> ln \<and> ln \<le> 1000)"
  using hexToHSL_range [OF eval_hex(2)] eval_hex(2) by blast

text \<open>
  Claim C10: on every string, \<open>hexToHSL\<close> and \<open>calculateComplementaryColor\<close> return a
  value and throw no exception (the \<open>TypeError\<close> of the model is for arguments that are
  not strings), and an input whose digit pair does not parse flows through the arithmetic
  as \<open>NaN\<close>.
\<close>

theorem string_input_total:
  "(\<exists>c. hexToHSL (Str cs) = Inr c
        \<and> (unparsedChannel cs \<longrightarrow> c = \<lparr>hsl_h = NaN, hsl_s = NaN, hsl_l = NaN\<rparr>))
   \<and> (\<exists>out. calculateComplementaryColor (Str cs) = Inr out)"
proof -
  have "unparsedChannel cs \<longrightarrow> hexToHSL_str cs = \<lparr>hsl_h = NaN, hsl_s = NaN, hsl_l = NaN\<rparr>"
    unfolding unparsedChannel_def using hexToHSL_str_NaN by blast
  moreover have "\<exists>out. calculateComplementaryColor (Str cs) = Inr out"
    by (simp add: calculateComplementaryColor_def)
  ultimately show ?thesis by simp
qed

theorem string_input_total_witness:
  "unparsedChannel (js ''#zzz'')
   \<and> (\<exists>c. hexToHSL (Str (js ''#zzz'')) = Inr c
        \<and> c = \<lparr>hsl_h = NaN, hsl_s = NaN, hsl_l = NaN\<rparr>)
   \<and> (\<exists>out. calculateComplementaryColor (Str (js ''#zzz'')) = Inr out)"
  using string_input_total [of "js ''#zzz''"] eval_unparsed(2) by simp


end
